theory Spec2Isabelle
  imports Main
begin

section \<open>QDirStat's DirTree (src/src/DirTree.cpp)\<close>

text \<open>
  A \<open>DirTree\<close> owns a pseudo root \<open>_root\<close> (a \<open>DirInfo\<close> without a parent), the
  busy flag, the read job queue, and it emits Qt signals. The member functions of
  DirTree.cpp are embedded as functions on a record of that state. Objects on the C++
  heap are addressed by natural numbers; a \<open>FileInfo *\<close> is a \<open>ptr\<close>. A function that
  dereferences a pointer returns \<open>Inl\<close> of a fault where the C++ program has undefined
  behaviour (null or dangling pointer), and \<open>Inr\<close> of its result otherwise. Every
  \<open>emit\<close> appends to the list \<open>emitted\<close>, so the order of notifications is part of the
  state; \<open>logWarning()\<close> and \<open>logError()\<close> append to \<open>logged\<close> (\<open>logDebug()\<close> lines
  are left out).

  The classes \<open>FileInfo\<close>, \<open>DirInfo\<close>, \<open>LocalDirReadJob\<close>, \<open>CacheReadJob\<close> and
  \<open>DirReadJobQueue\<close> and the header Exception.h are used by DirTree.cpp and are not
  among the sources. What DirTree.cpp needs of them is modelled from the spec; each
  such definition says so.
\<close>

subsection \<open>Pointers, entries and the heap\<close>

datatype ptr = Null | Addr nat

datatype fault = NullPointer | DanglingPointer

text \<open>
  Modelled from the spec: the class \<open>FileInfo\<close> (with its subclass \<open>DirInfo\<close>) is
  missing. An entry has its URL, the back reference to its parent, its children
  (the \<open>firstChild()\<close>/\<open>next()\<close> chain, first child first), its overflow grouping
  (\<open>dotEntry()\<close>), its kind (\<open>isDirInfo()\<close>, \<open>isDotEntry()\<close>) and the flags
  "finished reading" and "excluded". The aggregate sums are kept inside
  \<open>DirInfo\<close>; DirTree.cpp never reads or writes them itself, and they are not
  modelled.
\<close>

record FileInfo =
  fi_url :: string
  fi_parent :: ptr
  fi_children :: "nat list"
  fi_dotEntry :: ptr
  fi_isDirInfo :: bool
  fi_isDotEntry :: bool
  fi_isFinished :: bool
  fi_isExcluded :: bool

type_synonym heap = "nat \<Rightarrow> FileInfo option"

definition deref :: "heap \<Rightarrow> ptr \<Rightarrow> fault + FileInfo" where
  "deref h p =
     (case p of
        Null \<Rightarrow> Inl NullPointer
      | Addr i \<Rightarrow> (case h i of None \<Rightarrow> Inl DanglingPointer | Some e \<Rightarrow> Inr e))"

text \<open>Modelled from the spec: \<open>FileInfo::firstChild()\<close>, null for an entry without children.\<close>

definition firstChild :: "FileInfo \<Rightarrow> ptr" where
  "firstChild e = (case fi_children e of [] \<Rightarrow> Null | c # _ \<Rightarrow> Addr c)"

text \<open>
  Modelled from the spec: \<open>FileInfo::hasChildren()\<close>. The overflow grouping is "an
  addressable pseudo-child owned by its directory", so an entry has children when it
  has a child in its list or a grouping.
\<close>

definition hasChildren :: "FileInfo \<Rightarrow> bool" where
  "hasChildren e \<longleftrightarrow> fi_children e \<noteq> [] \<or> fi_dotEntry e \<noteq> Null"

text \<open>
  Modelled from the spec: what an entry owns, "a directory exclusively owns its
  children" and its overflow grouping.
\<close>

definition owned :: "heap \<Rightarrow> nat \<Rightarrow> nat list" where
  "owned h i =
     (case h i of
        None \<Rightarrow> []
      | Some e \<Rightarrow> fi_children e @ (case fi_dotEntry e of Null \<Rightarrow> [] | Addr d \<Rightarrow> [d]))"

text \<open>
  Modelled from the spec: \<open>delete entry\<close>. "A directory exclusively owns its
  children": the destructor destroys what the entry owns, then the entry. The first
  argument bounds the depth of the recursion; the callers pass the number of objects
  allocated so far, which no chain of distinct entries exceeds.
\<close>

fun destroy :: "nat \<Rightarrow> nat \<Rightarrow> heap \<Rightarrow> heap" where
  "destroy 0 i h = h(i := None)"
| "destroy (Suc n) i h = (fold (destroy n) (owned h i) h)(i := None)"

text \<open>
  Modelled from the spec: \<open>DirInfo::clear()\<close> "recursively empties the root without
  destroying the root Entry itself".
\<close>

definition DirInfo_clear :: "nat \<Rightarrow> ptr \<Rightarrow> heap \<Rightarrow> fault + heap" where
  "DirInfo_clear n p h =
     (case p of
        Null \<Rightarrow> Inl NullPointer
      | Addr i \<Rightarrow>
          (case h i of
             None \<Rightarrow> Inl DanglingPointer
           | Some e \<Rightarrow>
               Inr ((fold (destroy n) (owned h i) h)
                      (i \<mapsto> e\<lparr>fi_children := [], fi_dotEntry := Null\<rparr>))))"

text \<open>
  Modelled from the spec: \<open>DirInfo::insertChild(child)\<close>. The children are an
  "ordered set"; the new child becomes the first child, and inserting a child that is
  already linked changes nothing.
\<close>

definition insertChild :: "ptr \<Rightarrow> ptr \<Rightarrow> heap \<Rightarrow> fault + heap" where
  "insertChild p c h =
     (case deref h p of
        Inl f \<Rightarrow> Inl f
      | Inr e \<Rightarrow>
          (case (p, c) of
             (Addr i, Addr k) \<Rightarrow>
               Inr (if k \<in> set (fi_children e) then h
                    else h(i \<mapsto> e\<lparr>fi_children := k # fi_children e\<rparr>))
           | _ \<Rightarrow> Inl NullPointer))"

text \<open>
  Modelled from the spec: \<open>DirInfo::deletingChild(child)\<close> "unlinks from parent": the
  child leaves the parent's list of children.
\<close>

definition deletingChild :: "ptr \<Rightarrow> ptr \<Rightarrow> heap \<Rightarrow> fault + heap" where
  "deletingChild p c h =
     (case deref h p of
        Inl f \<Rightarrow> Inl f
      | Inr e \<Rightarrow>
          (case (p, c) of
             (Addr i, Addr k) \<Rightarrow>
               Inr (h(i \<mapsto> e\<lparr>fi_children := removeAll k (fi_children e)\<rparr>))
           | _ \<Rightarrow> Inl NullPointer))"

text \<open>Modelled from the spec: the setters \<open>setDotEntry\<close> and \<open>setExcluded\<close>.\<close>

definition setDotEntry :: "ptr \<Rightarrow> ptr \<Rightarrow> heap \<Rightarrow> fault + heap" where
  "setDotEntry p d h =
     (case deref h p of
        Inl f \<Rightarrow> Inl f
      | Inr e \<Rightarrow>
          (case p of
             Null \<Rightarrow> Inl NullPointer
           | Addr i \<Rightarrow> Inr (h(i \<mapsto> e\<lparr>fi_dotEntry := d\<rparr>))))"

definition setExcluded :: "ptr \<Rightarrow> bool \<Rightarrow> heap \<Rightarrow> fault + heap" where
  "setExcluded p b h =
     (case deref h p of
        Inl f \<Rightarrow> Inl f
      | Inr e \<Rightarrow>
          (case p of
             Null \<Rightarrow> Inl NullPointer
           | Addr i \<Rightarrow> Inr (h(i \<mapsto> e\<lparr>fi_isExcluded := b\<rparr>))))"

subsection \<open>Signals, jobs and the tree\<close>

datatype signal =
    Clearing
  | StartingReading
  | StartingReadingDir ptr
  | ChildAdded ptr
  | DeletingChild ptr
  | ChildDeleted
  | ReadJobFinished ptr
  | Finished
  | Aborted
  | ProgressInfo string
  | FinalizeLocal ptr

text \<open>
  A read job in the queue is what its constructor was given: the directory to read,
  and for a cache read job the name of the cache file.
\<close>

datatype job = LocalDirReadJob ptr | CacheReadJob ptr string

datatype log_line = StatFailed string | KillingDotEntryWithoutParent ptr

record DirTree =
  root :: ptr
  isBusy :: bool
  crossFileSystems :: bool
  enableLocalDirReader :: bool
  jobQueue :: "job list"
  heap :: heap
  allocated :: nat
  emitted :: "signal list"
  logged :: "log_line list"

text \<open>
  What the program asks of Qt and of the operating system: \<open>QFileInfo::absoluteFilePath\<close>,
  \<open>QDir::cleanPath\<close>, and \<open>lstat\<close>, which fails (\<open>None\<close>) or tells a directory from
  anything else.
\<close>

datatype file_kind = Directory | PlainFile

record environment =
  absoluteFilePath :: "string \<Rightarrow> string"
  cleanPath :: "string \<Rightarrow> string"
  lstat :: "string \<Rightarrow> file_kind option"

definition emit :: "signal \<Rightarrow> DirTree \<Rightarrow> DirTree" where
  "emit sg t = t\<lparr>emitted := emitted t @ [sg]\<rparr>"

definition log :: "log_line \<Rightarrow> DirTree \<Rightarrow> DirTree" where
  "log l t = t\<lparr>logged := logged t @ [l]\<rparr>"

text \<open>The \<open>#else\<close> branch of \<open>DirTree::readConfig\<close>.\<close>

definition readConfig :: "DirTree \<Rightarrow> DirTree" where
  "readConfig t = t\<lparr>crossFileSystems := False, enableLocalDirReader := True\<rparr>"

text \<open>
  Modelled from the spec: the constructor \<open>DirInfo(tree)\<close> of the pseudo root, an
  empty directory without a parent.
\<close>

definition pseudoRoot :: FileInfo where
  "pseudoRoot =
     \<lparr>fi_url = [], fi_parent = Null, fi_children = [], fi_dotEntry = Null,
      fi_isDirInfo = True, fi_isDotEntry = False, fi_isFinished = False,
      fi_isExcluded = False\<rparr>"

text \<open>\<open>DirTree::DirTree()\<close>: not busy, a fresh pseudo root, the configuration read.\<close>

definition DirTree_new :: DirTree where
  "DirTree_new =
     readConfig
       \<lparr>root = Addr 0, isBusy = False, crossFileSystems = False,
        enableLocalDirReader = False, jobQueue = [], heap = [0 \<mapsto> pseudoRoot],
        allocated = 1, emitted = [], logged = []\<rparr>"

text \<open>Sequencing of steps that can fault: the first fault ends the call.\<close>

definition bindF :: "fault + 'a \<Rightarrow> ('a \<Rightarrow> fault + 'b) \<Rightarrow> fault + 'b" where
  "bindF m k = (case m of Inl f \<Rightarrow> Inl f | Inr x \<Rightarrow> k x)"

text \<open>
  Modelled from the spec: the constructors \<open>FileInfo(url, statInfo, tree, parent)\<close> and
  \<open>DirInfo(url, statInfo, tree, parent)\<close>: a new entry for the URL with the given
  parent, a directory or not as \<open>lstat\<close> said, without children or grouping, not yet
  finished, not excluded.
\<close>

definition FileInfo_new :: "string \<Rightarrow> file_kind \<Rightarrow> ptr \<Rightarrow> FileInfo" where
  "FileInfo_new u k parent =
     \<lparr>fi_url = u, fi_parent = parent, fi_children = [], fi_dotEntry = Null,
      fi_isDirInfo = (k = Directory), fi_isDotEntry = False, fi_isFinished = False,
      fi_isExcluded = False\<rparr>"

text \<open>
  Modelled from the spec: \<open>LocalDirReadJob::stat(url, tree, parent)\<close>, the
  "synchronous existence/type check" that "creates the root Entry": null when
  \<open>lstat\<close> fails; otherwise a new entry, allocated at the next free address and
  linked under the parent it was given.
\<close>

definition stat :: "environment \<Rightarrow> string \<Rightarrow> ptr \<Rightarrow> DirTree \<Rightarrow> fault + (ptr \<times> DirTree)" where
  "stat env u parent t =
     (case lstat env u of
        None \<Rightarrow> Inr (Null, t)
      | Some k \<Rightarrow>
          (let i = allocated t;
               h = (heap t)(i \<mapsto> FileInfo_new u k parent)
           in bindF (if parent \<noteq> Null then insertChild parent (Addr i) h else Inr h) (\<lambda>h'.
                Inr (Addr i, t\<lparr>heap := h', allocated := Suc i\<rparr>))))"

subsection \<open>The member functions of DirTree\<close>

text \<open>\<open>DirTree::firstToplevel\<close>: \<open>_root ? _root->firstChild() : 0\<close>.\<close>

definition firstToplevel :: "DirTree \<Rightarrow> fault + ptr" where
  "firstToplevel t =
     (case root t of
        Null \<Rightarrow> Inr Null
      | Addr r \<Rightarrow> (case deref (heap t) (Addr r) of Inl f \<Rightarrow> Inl f | Inr e \<Rightarrow> Inr (firstChild e)))"

text \<open>\<open>DirTree::isTopLevel\<close>: \<open>item && item->parent() && ! item->parent()->parent()\<close>.\<close>

definition isTopLevel :: "DirTree \<Rightarrow> ptr \<Rightarrow> fault + bool" where
  "isTopLevel t item =
     (case item of
        Null \<Rightarrow> Inr False
      | Addr i \<Rightarrow>
          (case deref (heap t) item of
             Inl f \<Rightarrow> Inl f
           | Inr e \<Rightarrow>
               (case fi_parent e of
                  Null \<Rightarrow> Inr False
                | Addr p \<Rightarrow>
                    (case deref (heap t) (fi_parent e) of
                       Inl f \<Rightarrow> Inl f
                     | Inr pe \<Rightarrow> Inr (fi_parent pe = Null)))))"

text \<open>\<open>DirTree::url\<close>: the URL of the first toplevel entry, or the empty string.\<close>

definition url :: "DirTree \<Rightarrow> fault + string" where
  "url t =
     (case firstToplevel t of
        Inl f \<Rightarrow> Inl f
      | Inr realRoot \<Rightarrow>
          (case realRoot of
             Null \<Rightarrow> Inr []
           | Addr i \<Rightarrow>
               (case deref (heap t) realRoot of Inl f \<Rightarrow> Inl f | Inr e \<Rightarrow> Inr (fi_url e))))"

text \<open>
  \<open>DirTree::clear\<close>. Modelled from the spec: \<open>DirReadJobQueue::clear()\<close> empties the
  queue.
\<close>

definition clear :: "DirTree \<Rightarrow> fault + DirTree" where
  "clear t =
     (let t1 = t\<lparr>jobQueue := []\<rparr> in
      case root t1 of
        Null \<Rightarrow> Inr (t1\<lparr>isBusy := False\<rparr>)
      | Addr r \<Rightarrow>
          (let t2 = emit Clearing t1 in
           case DirInfo_clear (allocated t2) (root t2) (heap t2) of
             Inl f \<Rightarrow> Inl f
           | Inr h \<Rightarrow> Inr (t2\<lparr>heap := h, isBusy := False\<rparr>)))"

text \<open>\<open>DirTree::addJob\<close>. Modelled from the spec: \<open>enqueue\<close> appends to the "ordered queue".\<close>

definition addJob :: "job \<Rightarrow> DirTree \<Rightarrow> DirTree" where
  "addJob j t = t\<lparr>jobQueue := jobQueue t @ [j]\<rparr>"

text \<open>\<open>DirTree::childAddedNotify\<close>.\<close>

definition childAddedNotify :: "ptr \<Rightarrow> DirTree \<Rightarrow> fault + DirTree" where
  "childAddedNotify newChild t =
     (let t1 = emit (ChildAdded newChild) t in
      case deref (heap t1) newChild of
        Inl f \<Rightarrow> Inl f
      | Inr e \<Rightarrow>
          Inr (if fi_dotEntry e \<noteq> Null then emit (ChildAdded (fi_dotEntry e)) t1 else t1))"

text \<open>
  \<open>DirTree::abortReading\<close>. Modelled from the spec: \<open>DirReadJobQueue::abort()\<close>
  "empties the job queue".
\<close>

definition abortReading :: "DirTree \<Rightarrow> DirTree" where
  "abortReading t =
     (if jobQueue t = [] then t
      else emit Aborted (t\<lparr>jobQueue := [], isBusy := False\<rparr>))"

text \<open>\<open>DirTree::slotFinished\<close>.\<close>

definition slotFinished :: "DirTree \<Rightarrow> DirTree" where
  "slotFinished t = emit Finished (t\<lparr>isBusy := False\<rparr>)"

text \<open>
  Modelled from the spec: \<open>delete p\<close> on a pointer. Deleting the null pointer does
  nothing; deleting an object that is gone is a fault.
\<close>

definition delete_obj :: "nat \<Rightarrow> ptr \<Rightarrow> heap \<Rightarrow> fault + heap" where
  "delete_obj n p h =
     (case p of
        Null \<Rightarrow> Inr h
      | Addr i \<Rightarrow> (case h i of None \<Rightarrow> Inl DanglingPointer | Some e \<Rightarrow> Inr (destroy n i h)))"

text \<open>
  Modelled from the spec: the macro \<open>CHECK_PTR\<close> of Exception.h is missing. The spec
  has the failed check of \<open>startScan\<close> run to its end ("emits a finalize with null
  root notification and leaves the tree empty"), and \<open>startReading\<close> tests the same
  pointer for null on its next line, so the macro is taken to let the call go on.
\<close>

definition CHECK_PTR :: "ptr \<Rightarrow> DirTree \<Rightarrow> DirTree" where
  "CHECK_PTR p t = t"

text \<open>\<open>DirTree::startReading\<close>.\<close>

definition startReading :: "environment \<Rightarrow> string \<Rightarrow> DirTree \<Rightarrow> fault + DirTree" where
  "startReading env rawUrl t =
     (let u = absoluteFilePath env rawUrl;
          t1 = t\<lparr>isBusy := True\<rparr>
      in bindF (deref (heap t1) (root t1)) (\<lambda>re.
         bindF (if hasChildren re then clear t1 else Inr t1) (\<lambda>t2.
         let t3 = readConfig (emit StartingReading t2)
         in bindF (stat env u (root t3) t3) (\<lambda>(item, t4).
            let t5 = CHECK_PTR item t4
            in if item \<noteq> Null then
                 bindF (childAddedNotify item t5) (\<lambda>t6.
                 bindF (deref (heap t6) item) (\<lambda>ie.
                   if fi_isDirInfo ie then
                     Inr (emit (ReadJobFinished (root t6)) (addJob (LocalDirReadJob item) t6))
                   else
                     Inr (emit Finished
                           (emit (ReadJobFinished (root t6)) (t6\<lparr>isBusy := False\<rparr>)))))
               else
                 Inr (emit (FinalizeLocal Null)
                       (emit Finished ((log (StatFailed u) t5)\<lparr>isBusy := False\<rparr>)))))))"

text \<open>\<open>DirTree::refresh\<close>.\<close>

definition refresh :: "environment \<Rightarrow> ptr \<Rightarrow> DirTree \<Rightarrow> fault + DirTree" where
  "refresh env subtree t =
     (if root t = Null then Inr t
      else
        bindF (if subtree = Null then Inr True
               else bindF (deref (heap t) subtree) (\<lambda>se. Inr (fi_parent se = Null))) (\<lambda>all.
        if all then
          bindF (firstToplevel t) (\<lambda>top.
          bindF (deref (heap t) top) (\<lambda>te.
            startReading env (cleanPath env (fi_url te)) t))
        else
          bindF (deref (heap t) subtree) (\<lambda>se.
          let u = fi_url se;
              parent = fi_parent se
          in bindF (setExcluded subtree False (heap t)) (\<lambda>h1.
             let t1 = emit (DeletingChild subtree) (t\<lparr>heap := h1\<rparr>)
             in bindF (deletingChild parent subtree (heap t1)) (\<lambda>h2.
                bindF (delete_obj (allocated t1) subtree h2) (\<lambda>h3.
                let t2 = emit ChildDeleted (t1\<lparr>heap := h3\<rparr>);
                    t3 = emit StartingReading (t2\<lparr>isBusy := True\<rparr>)
                in bindF (stat env u parent t3) (\<lambda>(new, t4).
                   if new \<noteq> Null then
                     bindF (insertChild parent new (heap t4)) (\<lambda>h5.
                     bindF (childAddedNotify new (t4\<lparr>heap := h5\<rparr>)) (\<lambda>t5.
                     bindF (deref (heap t5) new) (\<lambda>ne.
                       if fi_isDirInfo ne then Inr (addJob (LocalDirReadJob new) t5)
                       else Inr (emit Finished (t5\<lparr>isBusy := False\<rparr>)))))
                   else Inr t4)))))))"

text \<open>\<open>DirTree::deletingChildNotify\<close> and \<open>DirTree::childDeletedNotify\<close>.\<close>

definition deletingChildNotify :: "ptr \<Rightarrow> DirTree \<Rightarrow> DirTree" where
  "deletingChildNotify deletedChild t =
     (let t1 = emit (DeletingChild deletedChild) t
      in if deletedChild = root t1 then t1\<lparr>root := Null\<rparr> else t1)"

definition childDeletedNotify :: "DirTree \<Rightarrow> DirTree" where
  "childDeletedNotify t = emit ChildDeleted t"

text \<open>
  \<open>DirTree::deleteSubtree\<close>. The test of the parent grouping comes before the
  parent unlinks the child, as in the source.
\<close>

definition deleteSubtree :: "ptr \<Rightarrow> DirTree \<Rightarrow> fault + DirTree" where
  "deleteSubtree subtree t =
     bindF (deref (heap t) subtree) (\<lambda>se.
     let parent = fi_parent se;
         t1 = deletingChildNotify subtree t
     in bindF
          (if parent \<noteq> Null then
             bindF (deref (heap t1) parent) (\<lambda>pe.
               if fi_isDotEntry pe \<and> \<not> hasChildren pe then
                 (if fi_parent pe \<noteq> Null then
                    bindF (deref (heap t1) (fi_parent pe)) (\<lambda>ge.
                      if fi_isFinished ge then
                        (let t2 = deletingChildNotify parent t1
                         in bindF (setDotEntry (fi_parent pe) Null (heap t2)) (\<lambda>h.
                            bindF (delete_obj (allocated t2) parent h) (\<lambda>h'.
                              Inr (t2\<lparr>heap := h'\<rparr>))))
                      else Inr t1)
                  else Inr (log (KillingDotEntryWithoutParent parent) t1))
               else Inr t1)
           else Inr t1) (\<lambda>t3.
        bindF
          (if parent \<noteq> Null then
             bindF (deletingChild parent subtree (heap t3)) (\<lambda>h. Inr (t3\<lparr>heap := h\<rparr>))
           else Inr t3) (\<lambda>t4.
        bindF (delete_obj (allocated t4) subtree (heap t4)) (\<lambda>h.
          let t5 = t4\<lparr>heap := h\<rparr>;
              t6 = (if subtree = root t5 then t5\<lparr>root := Null\<rparr> else t5)
          in Inr (emit ChildDeleted t6)))))"

text \<open>\<open>DirTree::setRoot\<close>.\<close>

definition setRoot :: "ptr \<Rightarrow> DirTree \<Rightarrow> fault + DirTree" where
  "setRoot newRoot t =
     bindF
       (if root t \<noteq> Null then
          (let t1 = emit (DeletingChild (root t)) t
           in bindF (delete_obj (allocated t1) (root t1) (heap t1)) (\<lambda>h.
                Inr (emit ChildDeleted (t1\<lparr>heap := h\<rparr>))))
        else Inr t) (\<lambda>t2.
     Inr (t2\<lparr>root := newRoot\<rparr>))"

text \<open>\<open>DirTree::readCache\<close>.\<close>

definition readCache :: "string \<Rightarrow> DirTree \<Rightarrow> DirTree" where
  "readCache cacheFileName t =
     addJob (CacheReadJob Null cacheFileName) (emit StartingReading (t\<lparr>isBusy := True\<rparr>))"

subsection \<open>Sequences of operations\<close>

text \<open>The operations a caller has on a tree, and a run of several of them.\<close>

datatype operation =
    StartScan string
  | Refresh ptr
  | DeleteSubtree ptr
  | Clear
  | Abort

fun apply_op :: "environment \<Rightarrow> operation \<Rightarrow> DirTree \<Rightarrow> fault + DirTree" where
  "apply_op env (StartScan p) t = startReading env p t"
| "apply_op env (Refresh e) t = refresh env e t"
| "apply_op env (DeleteSubtree e) t = deleteSubtree e t"
| "apply_op env Clear t = clear t"
| "apply_op env Abort t = Inr (abortReading t)"

fun run :: "environment \<Rightarrow> operation list \<Rightarrow> DirTree \<Rightarrow> fault + DirTree" where
  "run env [] t = Inr t"
| "run env (x # xs) t = bindF (apply_op env x t) (run env xs)"

subsection \<open>Concrete file systems and trees\<close>

text \<open>
  A file system on which every \<open>lstat\<close> fails, and one that holds the directory
  \<open>/d\<close> and nothing else. Paths are taken to be absolute and clean already.
\<close>

definition env_gone :: environment where
  "env_gone = \<lparr>absoluteFilePath = (\<lambda>p. p), cleanPath = (\<lambda>p. p), lstat = (\<lambda>p. None)\<rparr>"

definition env_dir :: environment where
  "env_dir =
     \<lparr>absoluteFilePath = (\<lambda>p. p), cleanPath = (\<lambda>p. p),
      lstat = (\<lambda>p. if p = ''/d'' then Some Directory else None)\<rparr>"

text \<open>
  An entry of a finished scan, for the trees below: its URL, parent and children, a
  directory (then marked finished) or a file.
\<close>

definition entry :: "string \<Rightarrow> ptr \<Rightarrow> bool \<Rightarrow> nat list \<Rightarrow> FileInfo" where
  "entry u p d cs =
     \<lparr>fi_url = u, fi_parent = p, fi_children = cs, fi_dotEntry = Null,
      fi_isDirInfo = d, fi_isDotEntry = False, fi_isFinished = d,
      fi_isExcluded = False\<rparr>"

text \<open>
  The tree after a finished scan of \<open>/d\<close>, a directory with the one file \<open>/d/f\<close>:
  the pseudo root at address 0, \<open>/d\<close> at 1, \<open>/d/f\<close> at 2.
\<close>

definition scanned :: DirTree where
  "scanned =
     DirTree_new
       \<lparr>heap := [0 \<mapsto> pseudoRoot\<lparr>fi_children := [1]\<rparr>,
                 1 \<mapsto> entry ''/d'' (Addr 0) True [2],
                 2 \<mapsto> entry ''/d/f'' (Addr 1) False []],
        allocated := 3\<rparr>"

text \<open>
  The same directory with its file kept in an overflow grouping: the grouping (dot
  entry) of \<open>/d\<close> at address 2, the file as its only child at 3.
\<close>

definition grouped :: DirTree where
  "grouped =
     DirTree_new
       \<lparr>heap := [0 \<mapsto> pseudoRoot\<lparr>fi_children := [1]\<rparr>,
                 1 \<mapsto> (entry ''/d'' (Addr 0) True [])\<lparr>fi_dotEntry := Addr 2\<rparr>,
                 2 \<mapsto> (entry ''/d'' (Addr 1) True [3])\<lparr>fi_isDotEntry := True\<rparr>,
                 3 \<mapsto> entry ''/d/f'' (Addr 2) False []],
        allocated := 4\<rparr>"

subsection \<open>Invariants\<close>

text \<open>
  \<open>shrinks h h'\<close>: no entry appears from \<open>h\<close> to \<open>h'\<close>, and an entry that is still
  there has its URL and its parent and no child it did not have.
\<close>

definition shrinks :: "heap \<Rightarrow> heap \<Rightarrow> bool" where
  "shrinks h h' \<longleftrightarrow>
     (\<forall>x e'. h' x = Some e' \<longrightarrow>
        (\<exists>e. h x = Some e \<and> fi_url e' = fi_url e \<and> fi_parent e' = fi_parent e
             \<and> set (fi_children e') \<subseteq> set (fi_children e)))"

text \<open>An entry with an empty URL is nobody's child: every child has a URL.\<close>

definition no_unnamed_child :: "heap \<Rightarrow> bool" where
  "no_unnamed_child h \<longleftrightarrow>
     (\<forall>i e. h i = Some e \<and> fi_url e = [] \<longrightarrow>
        (\<forall>j je. h j = Some je \<longrightarrow> i \<notin> set (fi_children je)))"

text \<open>
  The root object at address \<open>r\<close>: the entry there exists and has no parent, and no
  entry owns it (it is nobody's child and nobody's grouping).
\<close>

definition root_object :: "nat \<Rightarrow> heap \<Rightarrow> bool" where
  "root_object r h \<longleftrightarrow>
     (\<exists>re. h r = Some re \<and> fi_parent re = Null) \<and> (\<forall>j. r \<notin> set (owned h j))"

text \<open>
  The tree has its root at address \<open>r\<close>: the root pointer is \<open>r\<close>, the address has
  been allocated, and the root object is there.
\<close>

definition rooted :: "nat \<Rightarrow> DirTree \<Rightarrow> bool" where
  "rooted r t \<longleftrightarrow> root t = Addr r \<and> r < allocated t \<and> root_object r (heap t)"

section \<open>Properties\<close>

subsection \<open>Evaluation rules\<close>

lemma bindF_simps [simp]:
  "bindF (Inl f) k = Inl f"
  "bindF (Inr x) k = k x"
  by (simp_all add: bindF_def)

lemma deref_simps [simp]:
  "deref h Null = Inl NullPointer"
  "deref h (Addr i) = (case h i of None \<Rightarrow> Inl DanglingPointer | Some e \<Rightarrow> Inr e)"
  by (simp_all add: deref_def)

lemma deref_Inr: "deref h p = Inr e \<longleftrightarrow> (\<exists>i. p = Addr i \<and> h i = Some e)"
  by (cases p) (auto split: option.splits)

lemmas trees =
  scanned_def grouped_def DirTree_new_def pseudoRoot_def entry_def env_dir_def env_gone_def

lemmas ops =
  startReading_def refresh_def deleteSubtree_def clear_def stat_def emit_def log_def
  readConfig_def CHECK_PTR_def childAddedNotify_def addJob_def DirInfo_clear_def
  insertChild_def deletingChild_def setExcluded_def setDotEntry_def delete_obj_def
  owned_def hasChildren_def firstChild_def deletingChildNotify_def firstToplevel_def
  FileInfo_new_def url_def abortReading_def readCache_def

lemma Inr_projr: "\<not> isl s \<Longrightarrow> s = Inr (projr s)"
  by (cases s) simp_all

subsection \<open>What the operations change\<close>

lemma bindF_eq_Inr: "bindF m k = Inr y \<longleftrightarrow> (\<exists>x. m = Inr x \<and> k x = Inr y)"
  by (cases m) simp_all

lemma shrinks_refl: "shrinks h h"
  by (simp add: shrinks_def)

lemma shrinks_trans:
  assumes "shrinks h h'" and "shrinks h' h''"
  shows "shrinks h h''"
  unfolding shrinks_def
proof (intro allI impI)
  fix x e''
  assume "h'' x = Some e''"
  with assms(2) obtain e' where e': "h' x = Some e'" "fi_url e'' = fi_url e'"
    "fi_parent e'' = fi_parent e'" "set (fi_children e'') \<subseteq> set (fi_children e')"
    unfolding shrinks_def by blast
  with assms(1) obtain e where "h x = Some e" "fi_url e' = fi_url e"
    "fi_parent e' = fi_parent e" "set (fi_children e') \<subseteq> set (fi_children e)"
    unfolding shrinks_def by blast
  with e' show "\<exists>e. h x = Some e \<and> fi_url e'' = fi_url e \<and> fi_parent e'' = fi_parent e
                  \<and> set (fi_children e'') \<subseteq> set (fi_children e)"
    by auto
qed

lemma fold_removes:
  assumes "\<And>i h. f i h x = None \<or> f i h x = h x"
  shows "fold f ids h x = None \<or> fold f ids h x = h x"
proof (induction ids arbitrary: h)
  case Nil
  then show ?case by simp
next
  case (Cons a ids)
  from Cons.IH [of "f a h"] assms [of a h] show ?case by auto
qed

lemma destroy_removes: "destroy n i h x = None \<or> destroy n i h x = h x"
proof (induction n arbitrary: i h)
  case 0
  then show ?case by simp
next
  case (Suc n)
  have "fold (destroy n) (owned h i) h x = None \<or> fold (destroy n) (owned h i) h x = h x"
    by (rule fold_removes) (rule Suc.IH)
  then show ?case by auto
qed

lemma removes_shrinks:
  assumes "\<And>x. h' x = None \<or> h' x = h x"
  shows "shrinks h h'"
  unfolding shrinks_def
proof (intro allI impI)
  fix x e'
  assume "h' x = Some e'"
  with assms [of x] have "h x = Some e'" by auto
  then show "\<exists>e. h x = Some e \<and> fi_url e' = fi_url e \<and> fi_parent e' = fi_parent e
               \<and> set (fi_children e') \<subseteq> set (fi_children e)"
    by auto
qed

lemma destroy_shrinks: "shrinks h (destroy n i h)"
  by (rule removes_shrinks) (rule destroy_removes)

lemma fold_destroy_shrinks: "shrinks h (fold (destroy n) ids h)"
  by (rule removes_shrinks) (rule fold_removes, rule destroy_removes)

lemma delete_obj_shrinks: "delete_obj n p h = Inr h' \<Longrightarrow> shrinks h h'"
  by (auto simp: delete_obj_def destroy_shrinks shrinks_refl split: ptr.splits option.splits)

lemma DirInfo_clear_shrinks:
  assumes "DirInfo_clear n p h = Inr h'"
  shows "shrinks h h'"
proof -
  from assms obtain i e where p: "p = Addr i" and e: "h i = Some e"
    and h': "h' = (fold (destroy n) (owned h i) h)(i \<mapsto> e\<lparr>fi_children := [], fi_dotEntry := Null\<rparr>)"
    by (auto simp: DirInfo_clear_def split: ptr.splits option.splits)
  have "shrinks h (fold (destroy n) (owned h i) h)" by (rule fold_destroy_shrinks)
  with e show ?thesis unfolding h' shrinks_def by (auto split: if_splits)
qed

lemma deletingChild_shrinks: "deletingChild p c h = Inr h' \<Longrightarrow> shrinks h h'"
  by (auto simp: deletingChild_def shrinks_def deref_Inr split: sum.splits ptr.splits if_splits)

lemma setDotEntry_shrinks: "setDotEntry p d h = Inr h' \<Longrightarrow> shrinks h h'"
  by (auto simp: setDotEntry_def shrinks_def deref_Inr split: sum.splits ptr.splits if_splits)

lemma setExcluded_shrinks: "setExcluded p b h = Inr h' \<Longrightarrow> shrinks h h'"
  by (auto simp: setExcluded_def shrinks_def deref_Inr split: sum.splits ptr.splits if_splits)

lemma clear_D:
  assumes "clear t = Inr t'"
  shows "root t' = root t \<and> allocated t' = allocated t \<and> shrinks (heap t) (heap t')"
proof (cases "root t")
  case Null
  with assms show ?thesis by (auto simp: clear_def shrinks_refl)
next
  case (Addr r)
  with assms obtain h where h: "DirInfo_clear (allocated t) (root t) (heap t) = Inr h"
    and t': "t' = (emit Clearing (t\<lparr>jobQueue := []\<rparr>))\<lparr>heap := h, isBusy := False\<rparr>"
    by (auto simp: clear_def Let_def emit_def split: sum.splits)
  from h have "shrinks (heap t) h" by (rule DirInfo_clear_shrinks)
  with t' show ?thesis by (simp add: emit_def)
qed

lemma stat_D:
  assumes "stat env u p t = Inr (item, t')"
  shows "root t' = root t
         \<and> ((lstat env u = None \<and> item = Null \<and> t' = t)
            \<or> (\<exists>k. lstat env u = Some k \<and> item = Addr (allocated t)
                   \<and> allocated t' = Suc (allocated t)
                   \<and> (if p \<noteq> Null
                       then insertChild p (Addr (allocated t))
                              ((heap t)(allocated t \<mapsto> FileInfo_new u k p))
                       else Inr ((heap t)(allocated t \<mapsto> FileInfo_new u k p)))
                      = Inr (heap t')))"
proof (cases "lstat env u")
  case None
  with assms show ?thesis by (simp add: stat_def)
next
  case (Some k)
  with assms show ?thesis
    by (cases p) (auto simp: stat_def Let_def bindF_eq_Inr)
qed

lemma startReading_D:
  assumes "startReading env rawUrl t = Inr t'"
  shows "\<exists>t2 item t4. root t2 = root t \<and> allocated t2 = allocated t
           \<and> shrinks (heap t) (heap t2)
           \<and> stat env (absoluteFilePath env rawUrl) (root t2) t2 = Inr (item, t4)
           \<and> root t' = root t4 \<and> allocated t' = allocated t4 \<and> heap t' = heap t4"
proof -
  let ?t1 = "t\<lparr>isBusy := True\<rparr>"
  from assms obtain re t2 item t4 where
    re: "deref (heap t) (root t) = Inr re"
    and t2: "(if hasChildren re then clear ?t1 else Inr ?t1) = Inr t2"
    and st: "stat env (absoluteFilePath env rawUrl) (root (readConfig (emit StartingReading t2)))
               (readConfig (emit StartingReading t2)) = Inr (item, t4)"
    and rest: "(if item \<noteq> Null then
                 bindF (childAddedNotify item (CHECK_PTR item t4)) (\<lambda>t6.
                 bindF (deref (heap t6) item) (\<lambda>ie.
                   if fi_isDirInfo ie then
                     Inr (emit (ReadJobFinished (root t6)) (addJob (LocalDirReadJob item) t6))
                   else
                     Inr (emit Finished
                           (emit (ReadJobFinished (root t6)) (t6\<lparr>isBusy := False\<rparr>)))))
               else
                 Inr (emit (FinalizeLocal Null)
                       (emit Finished ((log (StatFailed (absoluteFilePath env rawUrl))
                          (CHECK_PTR item t4))\<lparr>isBusy := False\<rparr>)))) = Inr t'"
    by (auto simp: startReading_def Let_def bindF_eq_Inr)
  define t3 where "t3 = readConfig (emit StartingReading t2)"
  from t2 have a: "root t2 = root t \<and> allocated t2 = allocated t \<and> shrinks (heap t) (heap t2)"
    using clear_D [of ?t1 t2] by (auto simp: shrinks_refl split: if_splits)
  then have a3: "root t3 = root t \<and> allocated t3 = allocated t \<and> shrinks (heap t) (heap t3)"
    by (simp add: t3_def readConfig_def emit_def)
  from rest have b: "root t' = root t4 \<and> allocated t' = allocated t4 \<and> heap t' = heap t4"
    by (auto simp: bindF_eq_Inr childAddedNotify_def CHECK_PTR_def emit_def addJob_def log_def
        Let_def split: if_splits sum.splits)
  from st have "stat env (absoluteFilePath env rawUrl) (root t3) t3 = Inr (item, t4)"
    by (simp add: t3_def)
  with a3 b show ?thesis by blast
qed


lemma childAddedNotify_D:
  "childAddedNotify p t = Inr t' \<Longrightarrow>
     root t' = root t \<and> heap t' = heap t \<and> allocated t' = allocated t"
  by (auto simp: childAddedNotify_def emit_def Let_def split: sum.splits if_splits)

lemma childAddedNotify_emits:
  "childAddedNotify p t = Inr t' \<Longrightarrow> \<exists>sgs. t' = t\<lparr>emitted := emitted t @ sgs\<rparr>"
  by (auto simp: childAddedNotify_def emit_def Let_def split: sum.splits if_splits)

lemma stat_frame:
  "stat env u p t = Inr (item, t') \<Longrightarrow>
     isBusy t' = isBusy t \<and> jobQueue t' = jobQueue t \<and> emitted t' = emitted t"
  by (auto simp: stat_def Let_def bindF_eq_Inr split: option.splits)

lemma refresh_D:
  assumes "refresh env subtree t = Inr t'"
  shows "t' = t
         \<or> (\<exists>u. startReading env u t = Inr t')
         \<or> (\<exists>u parent t3 new t4. root t3 = root t \<and> allocated t3 = allocated t
               \<and> shrinks (heap t) (heap t3)
               \<and> stat env u parent t3 = Inr (new, t4)
               \<and> root t' = root t4 \<and> allocated t' = allocated t4
               \<and> (if new \<noteq> Null then insertChild parent new (heap t4) else Inr (heap t4))
                    = Inr (heap t'))"
proof (cases "root t = Null")
  case True
  with assms show ?thesis by (simp add: refresh_def)
next
  case False
  with assms obtain all where all: "(if subtree = Null then Inr True
               else bindF (deref (heap t) subtree) (\<lambda>se. Inr (fi_parent se = Null))) = Inr all"
    and body: "(if all then
          bindF (firstToplevel t) (\<lambda>toplevel.
          bindF (deref (heap t) toplevel) (\<lambda>te.
            startReading env (cleanPath env (fi_url te)) t))
        else
          bindF (deref (heap t) subtree) (\<lambda>se.
          let u = fi_url se;
              parent = fi_parent se
          in bindF (setExcluded subtree False (heap t)) (\<lambda>h1.
             let t1 = emit (DeletingChild subtree) (t\<lparr>heap := h1\<rparr>)
             in bindF (deletingChild parent subtree (heap t1)) (\<lambda>h2.
                bindF (delete_obj (allocated t1) subtree h2) (\<lambda>h3.
                let t2 = emit ChildDeleted (t1\<lparr>heap := h3\<rparr>);
                    t3 = emit StartingReading (t2\<lparr>isBusy := True\<rparr>)
                in bindF (stat env u parent t3) (\<lambda>(new, t4).
                   if new \<noteq> Null then
                     bindF (insertChild parent new (heap t4)) (\<lambda>h5.
                     bindF (childAddedNotify new (t4\<lparr>heap := h5\<rparr>)) (\<lambda>t5.
                     bindF (deref (heap t5) new) (\<lambda>ne.
                       if fi_isDirInfo ne then Inr (addJob (LocalDirReadJob new) t5)
                       else Inr (emit Finished (t5\<lparr>isBusy := False\<rparr>)))))
                   else Inr t4)))))) = Inr t'"
    by (auto simp: refresh_def bindF_eq_Inr)
  show ?thesis
  proof (cases all)
    case True
    with body show ?thesis by (auto simp: bindF_eq_Inr)
  next
    case False
    with body obtain se h1 h2 h3 new t4 where
      se: "deref (heap t) subtree = Inr se"
      and h1: "setExcluded subtree False (heap t) = Inr h1"
      and h2: "deletingChild (fi_parent se) subtree h1 = Inr h2"
      and h3: "delete_obj (allocated t) subtree h2 = Inr h3"
      and st: "stat env (fi_url se) (fi_parent se)
                 (emit StartingReading
                    ((emit ChildDeleted
                       ((emit (DeletingChild subtree) (t\<lparr>heap := h1\<rparr>))\<lparr>heap := h3\<rparr>))
                     \<lparr>isBusy := True\<rparr>)) = Inr (new, t4)"
      and rest: "(if new \<noteq> Null then
                     bindF (insertChild (fi_parent se) new (heap t4)) (\<lambda>h5.
                     bindF (childAddedNotify new (t4\<lparr>heap := h5\<rparr>)) (\<lambda>t5.
                     bindF (deref (heap t5) new) (\<lambda>ne.
                       if fi_isDirInfo ne then Inr (addJob (LocalDirReadJob new) t5)
                       else Inr (emit Finished (t5\<lparr>isBusy := False\<rparr>)))))
                   else Inr t4) = Inr t'"
      by (auto simp: bindF_eq_Inr Let_def emit_def)
    define t3 where "t3 = emit StartingReading
                    ((emit ChildDeleted
                       ((emit (DeletingChild subtree) (t\<lparr>heap := h1\<rparr>))\<lparr>heap := h3\<rparr>))
                     \<lparr>isBusy := True\<rparr>)"
    have "shrinks (heap t) h3"
      using setExcluded_shrinks [OF h1] deletingChild_shrinks [OF h2] delete_obj_shrinks [OF h3]
      by (blast intro: shrinks_trans)
    then have a: "root t3 = root t \<and> allocated t3 = allocated t \<and> shrinks (heap t) (heap t3)"
      by (simp add: t3_def emit_def)
    from rest have b: "root t' = root t4 \<and> allocated t' = allocated t4
        \<and> (if new \<noteq> Null then insertChild (fi_parent se) new (heap t4) else Inr (heap t4))
             = Inr (heap t')"
      by (auto simp: bindF_eq_Inr emit_def addJob_def split: if_splits
          dest!: childAddedNotify_D)
    from st have "stat env (fi_url se) (fi_parent se) t3 = Inr (new, t4)"
      by (simp add: t3_def)
    with a b show ?thesis by blast
  qed
qed

lemma deletingChildNotify_D:
  "heap (deletingChildNotify p t) = heap t \<and> allocated (deletingChildNotify p t) = allocated t
   \<and> root (deletingChildNotify p t) = (if p = root t then Null else root t)"
  by (simp add: deletingChildNotify_def emit_def Let_def)

lemma deleteSubtree_D:
  assumes "deleteSubtree subtree t = Inr t'"
  shows "allocated t' = allocated t \<and> shrinks (heap t) (heap t')
         \<and> (root t' = root t \<and> subtree \<noteq> root t
            \<or> root t' = Null
              \<and> (subtree = root t
                 \<or> (\<exists>pe. deref (heap t) (root t) = Inr pe \<and> fi_parent pe \<noteq> Null)))"
proof -
  from assms obtain se t3 t4 h where
    se: "deref (heap t) subtree = Inr se"
    and t3: "(if fi_parent se \<noteq> Null then
             bindF (deref (heap (deletingChildNotify subtree t)) (fi_parent se)) (\<lambda>pe.
               if fi_isDotEntry pe \<and> \<not> hasChildren pe then
                 (if fi_parent pe \<noteq> Null then
                    bindF (deref (heap (deletingChildNotify subtree t)) (fi_parent pe)) (\<lambda>ge.
                      if fi_isFinished ge then
                        (let t2 = deletingChildNotify (fi_parent se) (deletingChildNotify subtree t)
                         in bindF (setDotEntry (fi_parent pe) Null (heap t2)) (\<lambda>h.
                            bindF (delete_obj (allocated t2) (fi_parent se) h) (\<lambda>h'.
                              Inr (t2\<lparr>heap := h'\<rparr>))))
                      else Inr (deletingChildNotify subtree t))
                  else Inr (log (KillingDotEntryWithoutParent (fi_parent se))
                              (deletingChildNotify subtree t)))
               else Inr (deletingChildNotify subtree t))
           else Inr (deletingChildNotify subtree t)) = Inr t3"
    and t4: "(if fi_parent se \<noteq> Null then
             bindF (deletingChild (fi_parent se) subtree (heap t3)) (\<lambda>h. Inr (t3\<lparr>heap := h\<rparr>))
           else Inr t3) = Inr t4"
    and h: "delete_obj (allocated t4) subtree (heap t4) = Inr h"
    and t': "t' = emit ChildDeleted
                   (if subtree = root (t4\<lparr>heap := h\<rparr>) then t4\<lparr>heap := h, root := Null\<rparr>
                    else t4\<lparr>heap := h\<rparr>)"
    by (auto simp: deleteSubtree_def bindF_eq_Inr Let_def)
  have a3: "allocated t3 = allocated t \<and> shrinks (heap t) (heap t3)
            \<and> (root t3 = root t \<and> subtree \<noteq> root t
               \<or> root t3 = Null
                 \<and> (subtree = root t
                    \<or> (\<exists>pe. deref (heap t) (root t) = Inr pe \<and> fi_parent pe \<noteq> Null)))"
    using t3
    by (auto simp: bindF_eq_Inr Let_def deletingChildNotify_D log_def shrinks_refl
        split: if_splits
        dest!: setDotEntry_shrinks delete_obj_shrinks intro: shrinks_trans)
  have a4: "allocated t4 = allocated t3 \<and> shrinks (heap t3) (heap t4) \<and> root t4 = root t3"
    using t4
    by (auto simp: bindF_eq_Inr shrinks_refl split: if_splits dest!: deletingChild_shrinks)
  have a5: "shrinks (heap t4) h" using h by (rule delete_obj_shrinks)
  from a3 a4 a5 have "shrinks (heap t) h" by (blast intro: shrinks_trans)
  with a3 a4 t' show ?thesis by (auto simp: emit_def)
qed


subsection \<open>The root stays in place\<close>

lemma unowned_removes:
  assumes "\<And>x. h' x = None \<or> h' x = h x" and "\<forall>j. r \<notin> set (owned h j)"
  shows "\<forall>j. r \<notin> set (owned h' j)"
proof
  fix j
  from assms(1) [of j] have "owned h' j = [] \<or> owned h' j = owned h j"
    by (auto simp: owned_def)
  with assms(2) show "r \<notin> set (owned h' j)" by auto
qed

lemma fold_destroy_keeps:
  assumes "\<And>i h. i \<noteq> r \<Longrightarrow> \<forall>j. r \<notin> set (owned h j) \<Longrightarrow> destroy n i h r = h r"
    and "r \<notin> set ids" and "\<forall>j. r \<notin> set (owned h j)"
  shows "fold (destroy n) ids h r = h r"
  using assms(2,3)
proof (induction ids arbitrary: h)
  case Nil
  then show ?case by simp
next
  case (Cons a ids)
  from Cons.prems have a: "a \<noteq> r" and ids: "r \<notin> set ids" by auto
  from a Cons.prems(2) have k: "destroy n a h r = h r" by (rule assms(1))
  have "\<And>x. destroy n a h x = None \<or> destroy n a h x = h x" by (rule destroy_removes)
  then have "\<forall>j. r \<notin> set (owned (destroy n a h) j)"
    using Cons.prems(2) by (rule unowned_removes)
  with Cons.IH [OF ids] have "fold (destroy n) ids (destroy n a h) r = destroy n a h r" by blast
  with k show ?case by simp
qed

lemma destroy_keeps:
  assumes "i \<noteq> r" and "\<forall>j. r \<notin> set (owned h j)"
  shows "destroy n i h r = h r"
  using assms
proof (induction n arbitrary: i h)
  case 0
  then show ?case by simp
next
  case (Suc n)
  from Suc.prems(2) have "r \<notin> set (owned h i)" by blast
  then have "fold (destroy n) (owned h i) h r = h r"
    using Suc.prems(2) by (intro fold_destroy_keeps Suc.IH)
  with Suc.prems(1) show ?case by simp
qed

lemma root_object_destroy:
  assumes "root_object r h" and "i \<noteq> r"
  shows "root_object r (destroy n i h)"
proof -
  from assms(1) have u: "\<forall>j. r \<notin> set (owned h j)" by (simp add: root_object_def)
  from destroy_keeps [OF assms(2) u] have "destroy n i h r = h r" .
  moreover have "\<And>x. destroy n i h x = None \<or> destroy n i h x = h x"
    by (rule destroy_removes)
  then have "\<forall>j. r \<notin> set (owned (destroy n i h) j)"
    using u by (rule unowned_removes)
  ultimately show ?thesis using assms(1) by (simp add: root_object_def)
qed

lemma root_object_fold_destroy:
  assumes "root_object r h" and "r \<notin> set ids"
  shows "root_object r (fold (destroy n) ids h)"
  using assms
proof (induction ids arbitrary: h)
  case Nil
  then show ?case by simp
next
  case (Cons a ids)
  from Cons.prems have "root_object r (destroy n a h)" by (auto intro: root_object_destroy)
  with Cons.IH [of "destroy n a h"] Cons.prems(2) show ?case by simp
qed

lemma root_object_delete_obj:
  assumes "root_object r h" and "p \<noteq> Addr r" and "delete_obj n p h = Inr h'"
  shows "root_object r h'"
  using assms
  by (auto simp: delete_obj_def split: ptr.splits option.splits intro: root_object_destroy)

lemma root_object_update:
  assumes "root_object r h" and "h i = Some e" and "fi_parent e' = fi_parent e"
    and "set (fi_children e') \<subseteq> set (fi_children e)"
    and "fi_dotEntry e' = fi_dotEntry e \<or> fi_dotEntry e' = Null"
  shows "root_object r (h(i \<mapsto> e'))"
proof -
  from assms(1) obtain re where re: "h r = Some re" "fi_parent re = Null"
    and u: "\<forall>j. r \<notin> set (owned h j)"
    by (auto simp: root_object_def)
  from re assms(2,3) have "\<exists>re'. (h(i \<mapsto> e')) r = Some re' \<and> fi_parent re' = Null"
    by auto
  moreover have "\<forall>j. r \<notin> set (owned (h(i \<mapsto> e')) j)"
  proof
    fix j
    show "r \<notin> set (owned (h(i \<mapsto> e')) j)"
    proof (cases "j = i")
      case True
      from u have "r \<notin> set (owned h i)" by blast
      with assms(2,4,5) True show ?thesis
        by (auto simp: owned_def split: ptr.splits)
    next
      case False
      with u show ?thesis by (simp add: owned_def)
    qed
  qed
  ultimately show ?thesis by (simp add: root_object_def)
qed

lemma root_object_DirInfo_clear:
  assumes "root_object r h" and "DirInfo_clear n p h = Inr h'"
  shows "root_object r h'"
proof -
  from assms(2) obtain i e where p: "p = Addr i" and e: "h i = Some e"
    and h': "h' = (fold (destroy n) (owned h i) h)(i \<mapsto> e\<lparr>fi_children := [], fi_dotEntry := Null\<rparr>)"
    by (auto simp: DirInfo_clear_def split: ptr.splits option.splits)
  let ?h1 = "fold (destroy n) (owned h i) h"
  from assms(1) have "r \<notin> set (owned h i)" by (simp add: root_object_def)
  with assms(1) have r1: "root_object r ?h1" by (rule root_object_fold_destroy)
  have rm: "?h1 x = None \<or> ?h1 x = h x" for x
    by (rule fold_removes) (rule destroy_removes)
  show ?thesis
  proof (cases "?h1 i")
    case (Some e1)
    with rm [of i] e have "e1 = e" by auto
    with Some r1 show ?thesis unfolding h'
      by (intro root_object_update [of r ?h1 i e]) auto
  next
    case None
    with r1 have ir: "i \<noteq> r" by (auto simp: root_object_def)
    from r1 obtain re where re: "?h1 r = Some re" "fi_parent re = Null"
      and u: "\<forall>j. r \<notin> set (owned ?h1 j)"
      by (auto simp: root_object_def)
    have "\<forall>j. r \<notin> set (owned h' j)"
    proof
      fix j
      from u have "r \<notin> set (owned ?h1 j)" by blast
      then show "r \<notin> set (owned h' j)" unfolding h' by (auto simp: owned_def)
    qed
    with re ir show ?thesis unfolding h' by (simp add: root_object_def)
  qed
qed

lemma root_object_deletingChild:
  assumes "root_object r h" and "deletingChild p c h = Inr h'"
  shows "root_object r h'"
proof -
  from assms(2) obtain i k e where "h i = Some e"
    "h' = h(i \<mapsto> e\<lparr>fi_children := removeAll k (fi_children e)\<rparr>)"
    by (auto simp: deletingChild_def deref_Inr split: sum.splits ptr.splits)
  with assms(1) show ?thesis by (auto intro!: root_object_update)
qed

lemma root_object_setDotEntry_Null:
  assumes "root_object r h" and "setDotEntry p Null h = Inr h'"
  shows "root_object r h'"
proof -
  from assms(2) obtain i e where "h i = Some e" "h' = h(i \<mapsto> e\<lparr>fi_dotEntry := Null\<rparr>)"
    by (auto simp: setDotEntry_def deref_Inr split: sum.splits ptr.splits)
  with assms(1) show ?thesis by (auto intro!: root_object_update)
qed

lemma root_object_setExcluded:
  assumes "root_object r h" and "setExcluded p b h = Inr h'"
  shows "root_object r h'"
proof -
  from assms(2) obtain i e where "h i = Some e" "h' = h(i \<mapsto> e\<lparr>fi_isExcluded := b\<rparr>)"
    by (auto simp: setExcluded_def deref_Inr split: sum.splits ptr.splits)
  with assms(1) show ?thesis by (auto intro!: root_object_update)
qed

lemma root_object_insertChild:
  assumes "root_object r h" and "insertChild p (Addr c) h = Inr h'" and "c \<noteq> r"
  shows "root_object r h'"
proof -
  from assms(2) obtain i e where e: "h i = Some e"
    and h': "h' = (if c \<in> set (fi_children e) then h
                   else h(i \<mapsto> e\<lparr>fi_children := c # fi_children e\<rparr>))"
    by (auto simp: insertChild_def deref_Inr split: sum.splits ptr.splits)
  from assms(1) obtain re where re: "h r = Some re" "fi_parent re = Null"
    and u: "\<forall>j. r \<notin> set (owned h j)"
    by (auto simp: root_object_def)
  show ?thesis
  proof (cases "c \<in> set (fi_children e)")
    case True
    with h' assms(1) show ?thesis by simp
  next
    case False
    with h' have h'': "h' = h(i \<mapsto> e\<lparr>fi_children := c # fi_children e\<rparr>)" by simp
    from re e have "\<exists>re'. h' r = Some re' \<and> fi_parent re' = Null" unfolding h'' by auto
    moreover have "\<forall>j. r \<notin> set (owned h' j)"
    proof
      fix j
      from u have "r \<notin> set (owned h j)" "r \<notin> set (owned h i)" by blast+
      with e assms(3) show "r \<notin> set (owned h' j)" unfolding h''
        by (auto simp: owned_def split: ptr.splits if_splits)
    qed
    ultimately show ?thesis by (simp add: root_object_def)
  qed
qed

lemma root_object_alloc:
  assumes "root_object r h" and "a \<noteq> r"
  shows "root_object r (h(a \<mapsto> FileInfo_new u k p))"
proof -
  from assms(1) have u: "\<forall>j. r \<notin> set (owned h j)" by (simp add: root_object_def)
  have "\<forall>j. r \<notin> set (owned (h(a \<mapsto> FileInfo_new u k p)) j)"
  proof
    fix j
    from u have "r \<notin> set (owned h j)" by blast
    then show "r \<notin> set (owned (h(a \<mapsto> FileInfo_new u k p)) j)"
      by (auto simp: owned_def FileInfo_new_def)
  qed
  with assms show ?thesis by (simp add: root_object_def)
qed


lemma rooted_heap:
  assumes "rooted r t" and "root t' = root t" and "allocated t \<le> allocated t'"
    and "root_object r (heap t')"
  shows "rooted r t'"
  using assms by (simp add: rooted_def)

lemma rooted_clear:
  assumes "rooted r t" and "clear t = Inr t'"
  shows "rooted r t'"
proof -
  from assms(1) have root: "root t = Addr r" by (simp add: rooted_def)
  with assms(2) obtain h where h: "DirInfo_clear (allocated t) (root t) (heap t) = Inr h"
    and t': "t' = (emit Clearing (t\<lparr>jobQueue := []\<rparr>))\<lparr>heap := h, isBusy := False\<rparr>"
    by (auto simp: clear_def Let_def emit_def split: sum.splits)
  from assms(1) have "root_object r (heap t)" by (simp add: rooted_def)
  then have "root_object r h" using h by (rule root_object_DirInfo_clear)
  with assms(1) t' show ?thesis by (simp add: rooted_def emit_def)
qed

lemma rooted_stat:
  assumes "rooted r t" and "stat env u p t = Inr (item, t')"
  shows "rooted r t'"
proof -
  from stat_D [OF assms(2)] have root: "root t' = root t" by simp
  from stat_D [OF assms(2)] consider "t' = t"
    | k where "allocated t' = Suc (allocated t)"
        "(if p \<noteq> Null
          then insertChild p (Addr (allocated t)) ((heap t)(allocated t \<mapsto> FileInfo_new u k p))
          else Inr ((heap t)(allocated t \<mapsto> FileInfo_new u k p))) = Inr (heap t')"
    by blast
  then show ?thesis
  proof cases
    case 1
    with assms(1) show ?thesis by simp
  next
    case 2
    let ?h1 = "(heap t)(allocated t \<mapsto> FileInfo_new u k p)"
    from assms(1) have r: "allocated t \<noteq> r" and o: "root_object r (heap t)"
      by (auto simp: rooted_def)
    from o r have o1: "root_object r ?h1" by (rule root_object_alloc)
    have "root_object r (heap t')"
    proof (cases "p = Null")
      case True
      with 2(2) o1 show ?thesis by simp
    next
      case False
      with 2(2) have "insertChild p (Addr (allocated t)) ?h1 = Inr (heap t')" by simp
      with o1 show ?thesis using r by (rule root_object_insertChild)
    qed
    with assms(1) root 2(1) show ?thesis by (simp add: rooted_def)
  qed
qed

lemma startReading_steps:
  assumes "startReading env rawUrl t = Inr t'"
  shows "\<exists>t2 item t4. (t2 = t\<lparr>isBusy := True\<rparr> \<or> clear (t\<lparr>isBusy := True\<rparr>) = Inr t2)
           \<and> stat env (absoluteFilePath env rawUrl) (root t2)
                (readConfig (emit StartingReading t2)) = Inr (item, t4)
           \<and> root t' = root t4 \<and> allocated t' = allocated t4 \<and> heap t' = heap t4"
proof -
  let ?t1 = "t\<lparr>isBusy := True\<rparr>"
  from assms obtain re t2 item t4 where
    t2: "(if hasChildren re then clear ?t1 else Inr ?t1) = Inr t2"
    and st: "stat env (absoluteFilePath env rawUrl) (root (readConfig (emit StartingReading t2)))
               (readConfig (emit StartingReading t2)) = Inr (item, t4)"
    and rest: "(if item \<noteq> Null then
                 bindF (childAddedNotify item (CHECK_PTR item t4)) (\<lambda>t6.
                 bindF (deref (heap t6) item) (\<lambda>ie.
                   if fi_isDirInfo ie then
                     Inr (emit (ReadJobFinished (root t6)) (addJob (LocalDirReadJob item) t6))
                   else
                     Inr (emit Finished
                           (emit (ReadJobFinished (root t6)) (t6\<lparr>isBusy := False\<rparr>)))))
               else
                 Inr (emit (FinalizeLocal Null)
                       (emit Finished ((log (StatFailed (absoluteFilePath env rawUrl))
                          (CHECK_PTR item t4))\<lparr>isBusy := False\<rparr>)))) = Inr t'"
    by (auto simp: startReading_def Let_def bindF_eq_Inr)
  from t2 have a: "t2 = ?t1 \<or> clear ?t1 = Inr t2" by (auto split: if_splits)
  from rest have b: "root t' = root t4 \<and> allocated t' = allocated t4 \<and> heap t' = heap t4"
    by (auto simp: bindF_eq_Inr CHECK_PTR_def emit_def addJob_def log_def split: if_splits
        dest!: childAddedNotify_emits)
  from st have "stat env (absoluteFilePath env rawUrl) (root t2)
                  (readConfig (emit StartingReading t2)) = Inr (item, t4)"
    by (simp add: readConfig_def emit_def)
  with a b show ?thesis by blast
qed

lemma rooted_startReading:
  assumes "rooted r t" and "startReading env rawUrl t = Inr t'"
  shows "rooted r t'"
proof -
  from startReading_steps [OF assms(2)] obtain t2 item t4 where
    t2: "t2 = t\<lparr>isBusy := True\<rparr> \<or> clear (t\<lparr>isBusy := True\<rparr>) = Inr t2"
    and st: "stat env (absoluteFilePath env rawUrl) (root t2)
               (readConfig (emit StartingReading t2)) = Inr (item, t4)"
    and t': "root t' = root t4" "allocated t' = allocated t4" "heap t' = heap t4"
    by blast
  from assms(1) have "rooted r (t\<lparr>isBusy := True\<rparr>)" by (simp add: rooted_def)
  with t2 have "rooted r t2" by (auto intro: rooted_clear)
  then have "rooted r (readConfig (emit StartingReading t2))"
    by (simp add: rooted_def readConfig_def emit_def)
  then have "rooted r t4" using st by (rule rooted_stat)
  with t' show ?thesis by (simp add: rooted_def)
qed


lemma refresh_steps:
  assumes "refresh env subtree t = Inr t'"
  shows "t' = t
         \<or> (\<exists>u. startReading env u t = Inr t')
         \<or> (\<exists>se h1 h2 h3 t3 new t4. deref (heap t) subtree = Inr se \<and> fi_parent se \<noteq> Null
               \<and> setExcluded subtree False (heap t) = Inr h1
               \<and> deletingChild (fi_parent se) subtree h1 = Inr h2
               \<and> delete_obj (allocated t) subtree h2 = Inr h3
               \<and> root t3 = root t \<and> allocated t3 = allocated t \<and> heap t3 = h3
               \<and> stat env (fi_url se) (fi_parent se) t3 = Inr (new, t4)
               \<and> root t' = root t4 \<and> allocated t' = allocated t4
               \<and> (if new \<noteq> Null then insertChild (fi_parent se) new (heap t4)
                   else Inr (heap t4)) = Inr (heap t'))"
proof (cases "root t = Null")
  case True
  with assms show ?thesis by (simp add: refresh_def)
next
  case False
  with assms obtain all where all: "(if subtree = Null then Inr True
               else bindF (deref (heap t) subtree) (\<lambda>se. Inr (fi_parent se = Null))) = Inr all"
    and body: "(if all then
          bindF (firstToplevel t) (\<lambda>toplevel.
          bindF (deref (heap t) toplevel) (\<lambda>te.
            startReading env (cleanPath env (fi_url te)) t))
        else
          bindF (deref (heap t) subtree) (\<lambda>se.
          let u = fi_url se;
              parent = fi_parent se
          in bindF (setExcluded subtree False (heap t)) (\<lambda>h1.
             let t1 = emit (DeletingChild subtree) (t\<lparr>heap := h1\<rparr>)
             in bindF (deletingChild parent subtree (heap t1)) (\<lambda>h2.
                bindF (delete_obj (allocated t1) subtree h2) (\<lambda>h3.
                let t2 = emit ChildDeleted (t1\<lparr>heap := h3\<rparr>);
                    t3 = emit StartingReading (t2\<lparr>isBusy := True\<rparr>)
                in bindF (stat env u parent t3) (\<lambda>(new, t4).
                   if new \<noteq> Null then
                     bindF (insertChild parent new (heap t4)) (\<lambda>h5.
                     bindF (childAddedNotify new (t4\<lparr>heap := h5\<rparr>)) (\<lambda>t5.
                     bindF (deref (heap t5) new) (\<lambda>ne.
                       if fi_isDirInfo ne then Inr (addJob (LocalDirReadJob new) t5)
                       else Inr (emit Finished (t5\<lparr>isBusy := False\<rparr>)))))
                   else Inr t4)))))) = Inr t'"
    by (auto simp: refresh_def bindF_eq_Inr)
  show ?thesis
  proof (cases all)
    case True
    with body show ?thesis by (auto simp: bindF_eq_Inr)
  next
    case False
    with body obtain se h1 h2 h3 new t4 where
      se: "deref (heap t) subtree = Inr se"
      and h1: "setExcluded subtree False (heap t) = Inr h1"
      and h2: "deletingChild (fi_parent se) subtree h1 = Inr h2"
      and h3: "delete_obj (allocated t) subtree h2 = Inr h3"
      and st: "stat env (fi_url se) (fi_parent se)
                 (emit StartingReading
                    ((emit ChildDeleted
                       ((emit (DeletingChild subtree) (t\<lparr>heap := h1\<rparr>))\<lparr>heap := h3\<rparr>))
                     \<lparr>isBusy := True\<rparr>)) = Inr (new, t4)"
      and rest: "(if new \<noteq> Null then
                     bindF (insertChild (fi_parent se) new (heap t4)) (\<lambda>h5.
                     bindF (childAddedNotify new (t4\<lparr>heap := h5\<rparr>)) (\<lambda>t5.
                     bindF (deref (heap t5) new) (\<lambda>ne.
                       if fi_isDirInfo ne then Inr (addJob (LocalDirReadJob new) t5)
                       else Inr (emit Finished (t5\<lparr>isBusy := False\<rparr>)))))
                   else Inr t4) = Inr t'"
      by (auto simp: bindF_eq_Inr Let_def emit_def)
    from False all se have par: "fi_parent se \<noteq> Null"
      by (auto simp: bindF_eq_Inr split: if_splits)
    define t3 where "t3 = emit StartingReading
                    ((emit ChildDeleted
                       ((emit (DeletingChild subtree) (t\<lparr>heap := h1\<rparr>))\<lparr>heap := h3\<rparr>))
                     \<lparr>isBusy := True\<rparr>)"
    have a: "root t3 = root t \<and> allocated t3 = allocated t \<and> heap t3 = h3"
      by (simp add: t3_def emit_def)
    from rest have b: "root t' = root t4 \<and> allocated t' = allocated t4
        \<and> (if new \<noteq> Null then insertChild (fi_parent se) new (heap t4) else Inr (heap t4))
             = Inr (heap t')"
      by (auto simp: bindF_eq_Inr emit_def addJob_def split: if_splits
          dest!: childAddedNotify_D)
    from st have "stat env (fi_url se) (fi_parent se) t3 = Inr (new, t4)"
      by (simp add: t3_def)
    with se par h1 h2 h3 a b show ?thesis by blast
  qed
qed

lemma rooted_refresh:
  assumes "rooted r t" and "refresh env subtree t = Inr t'"
  shows "rooted r t'"
proof -
  from refresh_steps [OF assms(2)] consider "t' = t" | u where "startReading env u t = Inr t'"
    | se h1 h2 h3 t3 new t4 where "deref (heap t) subtree = Inr se" "fi_parent se \<noteq> Null"
        "setExcluded subtree False (heap t) = Inr h1"
        "deletingChild (fi_parent se) subtree h1 = Inr h2"
        "delete_obj (allocated t) subtree h2 = Inr h3"
        "root t3 = root t" "allocated t3 = allocated t" "heap t3 = h3"
        "stat env (fi_url se) (fi_parent se) t3 = Inr (new, t4)"
        "root t' = root t4" "allocated t' = allocated t4"
        "(if new \<noteq> Null then insertChild (fi_parent se) new (heap t4) else Inr (heap t4))
           = Inr (heap t')"
    by blast
  then show ?thesis
  proof cases
    case 1
    with assms(1) show ?thesis by simp
  next
    case 2
    with assms(1) show ?thesis by (auto intro: rooted_startReading)
  next
    case 3
    from assms(1) have o: "root_object r (heap t)" and ra: "r < allocated t"
      by (auto simp: rooted_def)
    from o 3(1,2) have ne: "subtree \<noteq> Addr r"
      by (auto simp: root_object_def)
    from o 3(3) have "root_object r h1" by (rule root_object_setExcluded)
    then have "root_object r h2" using 3(4) by (rule root_object_deletingChild)
    then have "root_object r h3" using ne 3(5) by (rule root_object_delete_obj)
    with assms(1) 3(6-8) have "rooted r t3" by (simp add: rooted_def)
    then have r4: "rooted r t4" using 3(9) by (rule rooted_stat)
    have "root_object r (heap t')"
    proof (cases new)
      case Null
      with 3(12) r4 show ?thesis by (simp add: rooted_def)
    next
      case (Addr c)
      from stat_D [OF 3(9)] Addr have "c = allocated t3" by auto
      with ra 3(7) have "c \<noteq> r" by simp
      moreover from Addr 3(12) have "insertChild (fi_parent se) (Addr c) (heap t4) = Inr (heap t')"
        by simp
      moreover from r4 have "root_object r (heap t4)" by (simp add: rooted_def)
      ultimately show ?thesis by (auto intro: root_object_insertChild)
    qed
    with r4 3(10,11) show ?thesis by (simp add: rooted_def)
  qed
qed

lemma deleteSubtree_steps:
  assumes "deleteSubtree subtree t = Inr t'"
  obtains se h3 h4 where "deref (heap t) subtree = Inr se"
    and "h3 = heap t
          \<or> (\<exists>pe h. deref (heap t) (fi_parent se) = Inr pe \<and> fi_parent pe \<noteq> Null
                \<and> setDotEntry (fi_parent pe) Null (heap t) = Inr h
                \<and> delete_obj (allocated t) (fi_parent se) h = Inr h3)"
    and "h4 = h3 \<or> deletingChild (fi_parent se) subtree h3 = Inr h4"
    and "delete_obj (allocated t) subtree h4 = Inr (heap t')"
    and "allocated t' = allocated t"
proof -
  from assms obtain se t3 t4 h where
    se: "deref (heap t) subtree = Inr se"
    and t3: "(if fi_parent se \<noteq> Null then
             bindF (deref (heap (deletingChildNotify subtree t)) (fi_parent se)) (\<lambda>pe.
               if fi_isDotEntry pe \<and> \<not> hasChildren pe then
                 (if fi_parent pe \<noteq> Null then
                    bindF (deref (heap (deletingChildNotify subtree t)) (fi_parent pe)) (\<lambda>ge.
                      if fi_isFinished ge then
                        (let t2 = deletingChildNotify (fi_parent se) (deletingChildNotify subtree t)
                         in bindF (setDotEntry (fi_parent pe) Null (heap t2)) (\<lambda>h.
                            bindF (delete_obj (allocated t2) (fi_parent se) h) (\<lambda>h'.
                              Inr (t2\<lparr>heap := h'\<rparr>))))
                      else Inr (deletingChildNotify subtree t))
                  else Inr (log (KillingDotEntryWithoutParent (fi_parent se))
                              (deletingChildNotify subtree t)))
               else Inr (deletingChildNotify subtree t))
           else Inr (deletingChildNotify subtree t)) = Inr t3"
    and t4: "(if fi_parent se \<noteq> Null then
             bindF (deletingChild (fi_parent se) subtree (heap t3)) (\<lambda>h. Inr (t3\<lparr>heap := h\<rparr>))
           else Inr t3) = Inr t4"
    and h: "delete_obj (allocated t4) subtree (heap t4) = Inr h"
    and t': "t' = emit ChildDeleted
                   (if subtree = root (t4\<lparr>heap := h\<rparr>) then t4\<lparr>heap := h, root := Null\<rparr>
                    else t4\<lparr>heap := h\<rparr>)"
    by (auto simp: deleteSubtree_def bindF_eq_Inr Let_def)
  have a3: "allocated t3 = allocated t
            \<and> (heap t3 = heap t
               \<or> (\<exists>pe h. deref (heap t) (fi_parent se) = Inr pe \<and> fi_parent pe \<noteq> Null
                    \<and> setDotEntry (fi_parent pe) Null (heap t) = Inr h
                    \<and> delete_obj (allocated t) (fi_parent se) h = Inr (heap t3)))"
    using t3
    by (auto simp: bindF_eq_Inr Let_def deletingChildNotify_D log_def split: if_splits)
  have a4: "allocated t4 = allocated t3
            \<and> (heap t4 = heap t3 \<or> deletingChild (fi_parent se) subtree (heap t3) = Inr (heap t4))"
    using t4 by (auto simp: bindF_eq_Inr split: if_splits)
  from t' have a5: "heap t' = h \<and> allocated t' = allocated t4" by (auto simp: emit_def)
  from a3 a4 a5 h have a6: "delete_obj (allocated t) subtree (heap t4) = Inr (heap t')"
    and a7: "allocated t' = allocated t"
    by simp_all
  from a3 have b3: "heap t3 = heap t
               \<or> (\<exists>pe h. deref (heap t) (fi_parent se) = Inr pe \<and> fi_parent pe \<noteq> Null
                    \<and> setDotEntry (fi_parent pe) Null (heap t) = Inr h
                    \<and> delete_obj (allocated t) (fi_parent se) h = Inr (heap t3))"
    by (rule conjunct2)
  from a4 have b4: "heap t4 = heap t3
                    \<or> deletingChild (fi_parent se) subtree (heap t3) = Inr (heap t4)"
    by (rule conjunct2)
  from se b3 b4 a6 a7 show ?thesis by (rule that)
qed

lemma deleteSubtree_destroys:
  assumes "deleteSubtree (Addr i) t = Inr t'"
  shows "heap t' i = None"
proof -
  from assms obtain h4 where "delete_obj (allocated t) (Addr i) h4 = Inr (heap t')"
    by (rule deleteSubtree_steps)
  then have "heap t' = destroy (allocated t) i h4"
    by (auto simp: delete_obj_def split: option.splits)
  then show ?thesis by (cases "allocated t") simp_all
qed

lemma rooted_deleteSubtree:
  assumes "rooted r t" and "subtree \<noteq> Addr r" and "deleteSubtree subtree t = Inr t'"
  shows "rooted r t'"
proof -
  from assms(1) have o: "root_object r (heap t)" and root: "root t = Addr r"
    and ra: "r < allocated t"
    by (auto simp: rooted_def)
  from deleteSubtree_D [OF assms(3)] root assms(2) o have root': "root t' = Addr r"
    by (auto simp: root_object_def split: option.splits)
  from assms(3) obtain se h3 h4 where
    "deref (heap t) subtree = Inr se"
    and st3: "h3 = heap t
              \<or> (\<exists>pe h. deref (heap t) (fi_parent se) = Inr pe \<and> fi_parent pe \<noteq> Null
                    \<and> setDotEntry (fi_parent pe) Null (heap t) = Inr h
                    \<and> delete_obj (allocated t) (fi_parent se) h = Inr h3)"
    and st4: "h4 = h3 \<or> deletingChild (fi_parent se) subtree h3 = Inr h4"
    and st5: "delete_obj (allocated t) subtree h4 = Inr (heap t')"
    and al: "allocated t' = allocated t"
    by (rule deleteSubtree_steps)
  from st3 have o3: "root_object r h3"
  proof
    assume "h3 = heap t"
    with o show ?thesis by simp
  next
    assume "\<exists>pe h. deref (heap t) (fi_parent se) = Inr pe \<and> fi_parent pe \<noteq> Null
                    \<and> setDotEntry (fi_parent pe) Null (heap t) = Inr h
                    \<and> delete_obj (allocated t) (fi_parent se) h = Inr h3"
    then obtain pe h where pe: "deref (heap t) (fi_parent se) = Inr pe" "fi_parent pe \<noteq> Null"
      and h: "setDotEntry (fi_parent pe) Null (heap t) = Inr h"
      and h3: "delete_obj (allocated t) (fi_parent se) h = Inr h3"
      by blast
    from o pe have ne: "fi_parent se \<noteq> Addr r" by (auto simp: root_object_def)
    from o h have "root_object r h" by (rule root_object_setDotEntry_Null)
    then show ?thesis using ne h3 by (rule root_object_delete_obj)
  qed
  from st4 o3 have "root_object r h4" by (auto intro: root_object_deletingChild)
  then have "root_object r (heap t')" using assms(2) st5 by (rule root_object_delete_obj)
  with root' ra al show ?thesis by (simp add: rooted_def)
qed

lemma rooted_abortReading: "rooted r t \<Longrightarrow> rooted r (abortReading t)"
  by (simp add: rooted_def abortReading_def emit_def)

lemma rooted_apply_op:
  assumes "rooted r t" and "x \<noteq> DeleteSubtree (Addr r)" and "apply_op env x t = Inr t'"
  shows "rooted r t'"
  using assms
  by (cases x)
    (auto intro: rooted_startReading rooted_refresh rooted_deleteSubtree rooted_clear
      rooted_abortReading)

lemma rooted_run:
  assumes "rooted r t" and "DeleteSubtree (Addr r) \<notin> set ops" and "run env ops t = Inr t'"
  shows "rooted r t'"
  using assms
proof (induction ops arbitrary: t)
  case Nil
  then show ?case by simp
next
  case (Cons x ops)
  from Cons.prems(3) obtain t1 where t1: "apply_op env x t = Inr t1" "run env ops t1 = Inr t'"
    by (auto simp: bindF_eq_Inr)
  from Cons.prems(2) have "x \<noteq> DeleteSubtree (Addr r)" by auto
  with Cons.prems(1) have "rooted r t1" using t1(1) by (rule rooted_apply_op)
  with Cons.IH [of t1] Cons.prems(2) t1(2) show ?case by simp
qed

lemma rootless_apply_op:
  assumes "root t = Null" and "apply_op env x t = Inr t'"
  shows "root t' = Null"
proof (cases x)
  case (StartScan p)
  with assms show ?thesis by (simp add: startReading_def Let_def)
next
  case (Refresh e)
  with assms show ?thesis by (simp add: refresh_def)
next
  case (DeleteSubtree e)
  with assms deleteSubtree_D [of e t t'] show ?thesis by auto
next
  case Clear
  with assms clear_D [of t t'] show ?thesis by auto
next
  case Abort
  with assms show ?thesis by (auto simp: abortReading_def emit_def)
qed

lemma rootless_run:
  assumes "root t = Null" and "run env ops t = Inr t'"
  shows "root t' = Null"
  using assms
proof (induction ops arbitrary: t)
  case Nil
  then show ?case by simp
next
  case (Cons x ops)
  from Cons.prems(2) obtain t1 where t1: "apply_op env x t = Inr t1" "run env ops t1 = Inr t'"
    by (auto simp: bindF_eq_Inr)
  from Cons.prems(1) t1(1) have "root t1 = Null" by (rule rootless_apply_op)
  with Cons.IH [of t1] t1(2) show ?case by simp
qed

subsection \<open>Every child has a URL\<close>

lemma named_shrinks:
  assumes "no_unnamed_child h" and "shrinks h h'"
  shows "no_unnamed_child h'"
  unfolding no_unnamed_child_def
proof (intro allI impI)
  fix i e j je
  assume ie: "h' i = Some e \<and> fi_url e = []" and je: "h' j = Some je"
  from ie assms(2) obtain e0 where e0: "h i = Some e0" "fi_url e0 = []"
    unfolding shrinks_def by fastforce
  from je assms(2) obtain je0 where je0: "h j = Some je0"
    "set (fi_children je) \<subseteq> set (fi_children je0)"
    unfolding shrinks_def by fastforce
  from assms(1) e0 je0(1) have "i \<notin> set (fi_children je0)"
    unfolding no_unnamed_child_def by blast
  with je0(2) show "i \<notin> set (fi_children je)" by blast
qed

lemma named_alloc:
  assumes "no_unnamed_child h" and "fi_url e \<noteq> []" and "fi_children e = []"
  shows "no_unnamed_child (h(a \<mapsto> e))"
  using assms unfolding no_unnamed_child_def by (auto split: if_splits)

lemma named_insertChild:
  assumes "no_unnamed_child h" and "insertChild p (Addr c) h = Inr h'"
    and "h c = Some e" and "fi_url e \<noteq> []"
  shows "no_unnamed_child h'"
proof -
  from assms(2) obtain q pe where q: "p = Addr q" "h q = Some pe"
    and h': "h' = (if c \<in> set (fi_children pe) then h
                   else h(q \<mapsto> pe\<lparr>fi_children := c # fi_children pe\<rparr>))"
    by (auto simp: insertChild_def deref_Inr split: sum.splits ptr.splits)
  show ?thesis
  proof (cases "c \<in> set (fi_children pe)")
    case True
    with h' assms(1) show ?thesis by simp
  next
    case False
    with h' have h'': "h' = h(q \<mapsto> pe\<lparr>fi_children := c # fi_children pe\<rparr>)" by simp
    show ?thesis
      unfolding no_unnamed_child_def
    proof (intro allI impI)
      fix i x j je
      assume ix: "h' i = Some x \<and> fi_url x = []" and je: "h' j = Some je"
      from ix h'' q(2) obtain x0 where x0: "h i = Some x0" "fi_url x0 = []"
        by (auto split: if_splits)
      with assms(3,4) have ic: "i \<noteq> c" by auto
      from je h'' have "je = pe\<lparr>fi_children := c # fi_children pe\<rparr> \<and> j = q \<or> h j = Some je"
        by (auto split: if_splits)
      then show "i \<notin> set (fi_children je)"
      proof
        assume "je = pe\<lparr>fi_children := c # fi_children pe\<rparr> \<and> j = q"
        moreover from assms(1) x0 q(2) have "i \<notin> set (fi_children pe)"
          unfolding no_unnamed_child_def by blast
        ultimately show ?thesis using ic by simp
      next
        assume "h j = Some je"
        with assms(1) x0 show ?thesis unfolding no_unnamed_child_def by blast
      qed
    qed
  qed
qed

lemma insertChild_keeps:
  assumes "insertChild p c h = Inr h'" and "h x = Some e"
  shows "\<exists>e'. h' x = Some e' \<and> fi_url e' = fi_url e"
  using assms
  by (auto simp: insertChild_def deref_Inr split: sum.splits ptr.splits if_splits)

lemma named_stat:
  assumes "no_unnamed_child (heap t)" and "lstat env [] = None"
    and "stat env u p t = Inr (item, t')"
  shows "no_unnamed_child (heap t')
         \<and> (\<forall>c. item = Addr c \<longrightarrow> (\<exists>e. heap t' c = Some e \<and> fi_url e \<noteq> []))"
proof -
  from stat_D [OF assms(3)] consider "item = Null" "t' = t"
    | k where "lstat env u = Some k" "item = Addr (allocated t)"
        "(if p \<noteq> Null
          then insertChild p (Addr (allocated t)) ((heap t)(allocated t \<mapsto> FileInfo_new u k p))
          else Inr ((heap t)(allocated t \<mapsto> FileInfo_new u k p))) = Inr (heap t')"
    by blast
  then show ?thesis
  proof cases
    case 1
    with assms(1) show ?thesis by simp
  next
    case 2
    let ?e = "FileInfo_new u k p"
    let ?h1 = "(heap t)(allocated t \<mapsto> ?e)"
    from 2(1) assms(2) have u: "u \<noteq> []" by auto
    then have e: "fi_url ?e \<noteq> []" "fi_children ?e = []" by (simp_all add: FileInfo_new_def)
    with assms(1) have n1: "no_unnamed_child ?h1" by (rule named_alloc)
    have at: "?h1 (allocated t) = Some ?e" by simp
    show ?thesis
    proof (cases "p = Null")
      case True
      with 2(3) have "heap t' = ?h1" by simp
      with n1 2(2) e show ?thesis by auto
    next
      case False
      with 2(3) have ins: "insertChild p (Addr (allocated t)) ?h1 = Inr (heap t')" by simp
      from n1 ins at e(1) have "no_unnamed_child (heap t')" by (rule named_insertChild)
      moreover from insertChild_keeps [OF ins at] e(1)
      have "\<exists>e. heap t' (allocated t) = Some e \<and> fi_url e \<noteq> []" by auto
      ultimately show ?thesis using 2(2) by auto
    qed
  qed
qed

lemma named_clear:
  assumes "no_unnamed_child (heap t)" and "clear t = Inr t'"
  shows "no_unnamed_child (heap t')"
  using clear_D [OF assms(2)] assms(1) by (auto intro: named_shrinks)

lemma named_startReading:
  assumes "no_unnamed_child (heap t)" and "lstat env [] = None"
    and "startReading env rawUrl t = Inr t'"
  shows "no_unnamed_child (heap t')"
proof -
  from startReading_D [OF assms(3)] obtain t2 item t4 where
    t2: "shrinks (heap t) (heap t2)"
    and st: "stat env (absoluteFilePath env rawUrl) (root t2) t2 = Inr (item, t4)"
    and t': "heap t' = heap t4"
    by blast
  from assms(1) t2 have "no_unnamed_child (heap t2)" by (rule named_shrinks)
  from named_stat [OF this assms(2) st] t' show ?thesis by simp
qed

lemma named_refresh:
  assumes "no_unnamed_child (heap t)" and "lstat env [] = None"
    and "refresh env subtree t = Inr t'"
  shows "no_unnamed_child (heap t')"
proof -
  from refresh_D [OF assms(3)] consider "t' = t" | u where "startReading env u t = Inr t'"
    | u parent t3 new t4 where "shrinks (heap t) (heap t3)"
        "stat env u parent t3 = Inr (new, t4)"
        "(if new \<noteq> Null then insertChild parent new (heap t4) else Inr (heap t4))
           = Inr (heap t')"
    by blast
  then show ?thesis
  proof cases
    case 1
    with assms(1) show ?thesis by simp
  next
    case 2
    with assms(1,2) show ?thesis by (auto intro: named_startReading)
  next
    case 3
    from assms(1) 3(1) have "no_unnamed_child (heap t3)" by (rule named_shrinks)
    from named_stat [OF this assms(2) 3(2)]
    have n4: "no_unnamed_child (heap t4)"
      and new: "\<forall>c. new = Addr c \<longrightarrow> (\<exists>e. heap t4 c = Some e \<and> fi_url e \<noteq> [])"
      by simp_all
    show ?thesis
    proof (cases new)
      case Null
      with 3(3) n4 show ?thesis by simp
    next
      case (Addr c)
      with new obtain e where e: "heap t4 c = Some e" "fi_url e \<noteq> []" by blast
      from Addr 3(3) have "insertChild parent (Addr c) (heap t4) = Inr (heap t')" by simp
      with n4 show ?thesis using e by (rule named_insertChild)
    qed
  qed
qed

lemma named_deleteSubtree:
  assumes "no_unnamed_child (heap t)" and "deleteSubtree subtree t = Inr t'"
  shows "no_unnamed_child (heap t')"
  using deleteSubtree_D [OF assms(2)] assms(1) by (auto intro: named_shrinks)

lemma named_apply_op:
  assumes "no_unnamed_child (heap t)" and "lstat env [] = None"
    and "apply_op env x t = Inr t'"
  shows "no_unnamed_child (heap t')"
  using assms
  by (cases x)
    (auto intro: named_startReading named_refresh named_deleteSubtree named_clear
      simp: abortReading_def emit_def)

lemma named_run:
  assumes "no_unnamed_child (heap t)" and "lstat env [] = None" and "run env ops t = Inr t'"
  shows "no_unnamed_child (heap t')"
  using assms
proof (induction ops arbitrary: t)
  case Nil
  then show ?case by simp
next
  case (Cons x ops)
  from Cons.prems(3) obtain t1 where t1: "apply_op env x t = Inr t1" "run env ops t1 = Inr t'"
    by (auto simp: bindF_eq_Inr)
  from Cons.prems(1,2) t1(1) have "no_unnamed_child (heap t1)" by (rule named_apply_op)
  with Cons.IH [of t1] Cons.prems(2) t1(2) show ?case by simp
qed

lemma named_DirTree_new: "no_unnamed_child (heap DirTree_new)"
  by (simp add: no_unnamed_child_def DirTree_new_def readConfig_def pseudoRoot_def)

subsection \<open>startReading\<close>

text \<open>
  Claim C1. When the tree has its root and \<open>lstat\<close> fails on the absolute path,
  \<open>startReading\<close> returns with no toplevel entry in the tree (the root has neither
  children nor a grouping) and \<open>isBusy\<close> false. What
  it emits is \<open>clearing\<close> (only when the root had children to clear),
  \<open>startingReading\<close>, \<open>finished\<close> and last \<open>finalizeLocal(0)\<close>: no \<open>childAdded\<close>. The
  failure is logged as a warning. No job is enqueued: the queue is as it was, or empty
  when the tree was cleared.
\<close>

theorem startReading_stat_fails:
  assumes "deref (heap t) (root t) = Inr re"
      and "lstat env (absoluteFilePath env rawUrl) = None"
  shows "\<exists>t'. startReading env rawUrl t = Inr t'
           \<and> firstToplevel t' = Inr Null
           \<and> (\<exists>re'. deref (heap t') (root t') = Inr re' \<and> \<not> hasChildren re')
           \<and> \<not> isBusy t'
           \<and> emitted t' = emitted t @ (if hasChildren re then [Clearing] else [])
                             @ [StartingReading, Finished, FinalizeLocal Null]
           \<and> logged t' = logged t @ [StatFailed (absoluteFilePath env rawUrl)]
           \<and> jobQueue t' = (if hasChildren re then [] else jobQueue t)
           \<and> root t' = root t"
  using assms
  by (auto simp: deref_Inr startReading_def clear_def stat_def emit_def log_def
      readConfig_def CHECK_PTR_def DirInfo_clear_def hasChildren_def firstToplevel_def
      firstChild_def Let_def)

text \<open>
  On the scanned tree (the root has a child, so the tree is cleared), and on a fresh
  tree with a cache read job waiting (the queue is left alone).
\<close>

theorem startReading_stat_fails_witness:
  "map_sum id (\<lambda>t. (firstToplevel t, isBusy t, emitted t, jobQueue t, logged t))
      (startReading env_gone ''/d'' scanned)
     = Inr (Inr Null, False, [Clearing, StartingReading, Finished, FinalizeLocal Null], [],
            [StatFailed ''/d''])
   \<and> map_sum id (\<lambda>t. (firstToplevel t, isBusy t, emitted t, jobQueue t, logged t))
      (startReading env_gone ''/d'' (readCache ''c'' DirTree_new))
     = Inr (Inr Null, False, [StartingReading, StartingReading, Finished, FinalizeLocal Null],
            [CacheReadJob Null ''c''], [StatFailed ''/d''])"
  using startReading_stat_fails [of scanned _ env_gone "''/d''"]
    startReading_stat_fails [of "readCache ''c'' DirTree_new" _ env_gone "''/d''"]
  by (auto simp: trees readConfig_def readCache_def addJob_def emit_def hasChildren_def)

text \<open>
  The first scan: on a tree whose root has no children, \<open>startReading\<close> of a path
  that \<open>lstat\<close> accepts creates the toplevel entry and emits \<open>startingReading\<close>,
  \<open>childAdded\<close> for the entry and \<open>readJobFinished\<close>. For a directory it enqueues
  the one read job and returns busy; for a file it enqueues nothing, emits
  \<open>finished\<close> and returns not busy.
\<close>

lemma startReading_first_scan:
  assumes "root t = Addr r" and "heap t r = Some re" and "\<not> hasChildren re"
    and "r \<noteq> allocated t"
    and "lstat env (absoluteFilePath env rawUrl) = Some k"
  shows "\<exists>t'. startReading env rawUrl t = Inr t'
           \<and> firstToplevel t' = Inr (Addr (allocated t))
           \<and> map_option fi_isDirInfo (heap t' (allocated t)) = Some (k = Directory)
           \<and> emitted t' = emitted t @ [StartingReading, ChildAdded (Addr (allocated t))]
                @ (if k = Directory then [ReadJobFinished (root t)]
                   else [ReadJobFinished (root t), Finished])
           \<and> jobQueue t' = jobQueue t
                @ (if k = Directory then [LocalDirReadJob (Addr (allocated t))] else [])
           \<and> isBusy t' = (k = Directory)"
  using assms
  by (auto simp: startReading_def Let_def stat_def insertChild_def readConfig_def emit_def
      CHECK_PTR_def childAddedNotify_def addJob_def hasChildren_def firstToplevel_def
      firstChild_def FileInfo_new_def)

text \<open>
  A later scan: when the root has children, \<open>clear()\<close> runs after \<open>_isBusy = true\<close>
  and resets the flag, so whatever \<open>lstat\<close> says, \<open>startReading\<close> returns not busy.
\<close>

lemma startReading_after_clear_not_busy:
  assumes "deref (heap t) (root t) = Inr re" and "hasChildren re"
    and "startReading env rawUrl t = Inr t'"
  shows "\<not> isBusy t'"
proof -
  from assms obtain t2 item t4 where t2: "clear (t\<lparr>isBusy := True\<rparr>) = Inr t2"
    and st: "stat env (absoluteFilePath env rawUrl) (root t2)
               (readConfig (emit StartingReading t2)) = Inr (item, t4)"
    and rest: "(if item \<noteq> Null then
                 bindF (childAddedNotify item (CHECK_PTR item t4)) (\<lambda>t6.
                 bindF (deref (heap t6) item) (\<lambda>ie.
                   if fi_isDirInfo ie then
                     Inr (emit (ReadJobFinished (root t6)) (addJob (LocalDirReadJob item) t6))
                   else
                     Inr (emit Finished
                           (emit (ReadJobFinished (root t6)) (t6\<lparr>isBusy := False\<rparr>)))))
               else
                 Inr (emit (FinalizeLocal Null)
                       (emit Finished ((log (StatFailed (absoluteFilePath env rawUrl))
                          (CHECK_PTR item t4))\<lparr>isBusy := False\<rparr>)))) = Inr t'"
    by (auto simp: startReading_def Let_def bindF_eq_Inr readConfig_def emit_def)
  from t2 have "\<not> isBusy t2"
    by (auto simp: clear_def Let_def emit_def split: sum.splits ptr.splits)
  with stat_frame [OF st] have "\<not> isBusy t4" by (simp add: readConfig_def emit_def)
  with rest show ?thesis
    by (auto simp: bindF_eq_Inr CHECK_PTR_def emit_def addJob_def log_def split: if_splits
        dest!: childAddedNotify_emits)
qed

text \<open>
  Claim C2. \<open>startReading\<close> sets \<open>_isBusy = true\<close> first and then calls \<open>clear()\<close>
  when the root has children, and \<open>clear()\<close> ends with \<open>_isBusy = false\<close>. Scanning the
  directory \<open>/d\<close> again on the scanned tree creates the entry, emits \<open>childAdded\<close> for
  it and enqueues the one read job, and returns with \<open>isBusy\<close> false. On a fresh tree
  the same call returns with \<open>isBusy\<close> true.
\<close>

theorem startReading_rescan_not_busy:
  "map_sum id (\<lambda>t. (isBusy t, jobQueue t, emitted t)) (startReading env_dir ''/d'' scanned)
     = Inr (False, [LocalDirReadJob (Addr 3)],
            [Clearing, StartingReading, ChildAdded (Addr 3), ReadJobFinished (Addr 0)])
   \<and> map_sum id (\<lambda>t. (isBusy t, jobQueue t, emitted t)) (startReading env_dir ''/d'' DirTree_new)
     = Inr (True, [LocalDirReadJob (Addr 1)],
            [StartingReading, ChildAdded (Addr 1), ReadJobFinished (Addr 0)])"
  by (simp add: trees ops Let_def eval_nat_numeral)

subsection \<open>abortReading\<close>

text \<open>
  Claim C3. With an empty job queue \<open>abortReading\<close> returns the tree as it is. With
  jobs in the queue it empties the queue, leaves \<open>isBusy\<close> false and emits \<open>aborted\<close>
  once. Aborting twice is aborting once.
\<close>

theorem abortReading_idempotent:
  "(jobQueue t = [] \<longrightarrow> abortReading t = t)
   \<and> (jobQueue t \<noteq> [] \<longrightarrow>
        jobQueue (abortReading t) = [] \<and> \<not> isBusy (abortReading t)
        \<and> emitted (abortReading t) = emitted t @ [Aborted])
   \<and> abortReading (abortReading t) = abortReading t"
  by (simp add: abortReading_def emit_def)

theorem abortReading_idempotent_witness:
  "jobQueue (readCache ''c'' DirTree_new) \<noteq> []
   \<and> jobQueue (abortReading (readCache ''c'' DirTree_new)) = []
   \<and> \<not> isBusy (abortReading (readCache ''c'' DirTree_new))
   \<and> emitted (abortReading (readCache ''c'' DirTree_new)) = [StartingReading, Aborted]
   \<and> abortReading (abortReading (readCache ''c'' DirTree_new))
       = abortReading (readCache ''c'' DirTree_new)
   \<and> jobQueue DirTree_new = [] \<and> abortReading DirTree_new = DirTree_new"
  using abortReading_idempotent [of "readCache ''c'' DirTree_new"]
    abortReading_idempotent [of DirTree_new]
  by (simp add: readCache_def addJob_def emit_def DirTree_new_def readConfig_def)

subsection \<open>refresh\<close>

text \<open>
  When the root has children, \<open>startReading\<close> clears the tree first: what it emits
  begins with \<open>clearing\<close> and \<open>startingReading\<close>.
\<close>

lemma startReading_after_clear_emits:
  assumes "deref (heap t) (root t) = Inr re" and "hasChildren re"
    and "startReading env rawUrl t = Inr t'"
  shows "\<exists>sgs. emitted t' = emitted t @ [Clearing, StartingReading] @ sgs"
proof -
  from assms obtain t2 item t4 where t2: "clear (t\<lparr>isBusy := True\<rparr>) = Inr t2"
    and st: "stat env (absoluteFilePath env rawUrl) (root t2)
               (readConfig (emit StartingReading t2)) = Inr (item, t4)"
    and rest: "(if item \<noteq> Null then
                 bindF (childAddedNotify item (CHECK_PTR item t4)) (\<lambda>t6.
                 bindF (deref (heap t6) item) (\<lambda>ie.
                   if fi_isDirInfo ie then
                     Inr (emit (ReadJobFinished (root t6)) (addJob (LocalDirReadJob item) t6))
                   else
                     Inr (emit Finished
                           (emit (ReadJobFinished (root t6)) (t6\<lparr>isBusy := False\<rparr>)))))
               else
                 Inr (emit (FinalizeLocal Null)
                       (emit Finished ((log (StatFailed (absoluteFilePath env rawUrl))
                          (CHECK_PTR item t4))\<lparr>isBusy := False\<rparr>)))) = Inr t'"
    by (auto simp: startReading_def Let_def bindF_eq_Inr readConfig_def emit_def)
  from assms(1) obtain r where "root t = Addr r" by (auto simp: deref_Inr)
  with t2 have "emitted t2 = emitted t @ [Clearing]"
    by (auto simp: clear_def Let_def emit_def split: sum.splits)
  with stat_frame [OF st] have e4: "emitted t4 = emitted t @ [Clearing, StartingReading]"
    by (simp add: readConfig_def emit_def)
  from rest obtain sgs where "emitted t' = emitted t4 @ sgs"
    by (auto simp: bindF_eq_Inr CHECK_PTR_def emit_def addJob_def log_def split: if_splits
        dest!: childAddedNotify_emits)
  with e4 show ?thesis by simp
qed

text \<open>
  Claim C4, as stated, fails for the root Entry that a scan creates: the toplevel
  entry of the scanned tree, whose URL is the tree's \<open>url()\<close>, has the pseudo root as
  its parent, so \<open>refresh\<close> on it takes the subtree branch. It deletes and re-creates
  that entry under the pseudo root and returns busy, where \<open>startReading\<close> on the
  same path clears the tree and emits other notifications.
\<close>

theorem refresh_root_entry_counterexample:
  "firstToplevel scanned = Inr (Addr 1) \<and> url scanned = Inr ''/d''
   \<and> map_sum id (\<lambda>t. (isBusy t, emitted t)) (refresh env_dir (Addr 1) scanned)
       = Inr (True, [DeletingChild (Addr 1), ChildDeleted, StartingReading, ChildAdded (Addr 3)])
   \<and> map_sum id (\<lambda>t. (isBusy t, emitted t)) (startReading env_dir ''/d'' scanned)
       = Inr (False, [Clearing, StartingReading, ChildAdded (Addr 3), ReadJobFinished (Addr 0)])
   \<and> refresh env_dir (Addr 1) scanned \<noteq> startReading env_dir ''/d'' scanned"
proof -
  have a: "firstToplevel scanned = Inr (Addr 1)" "url scanned = Inr ''/d''" by code_simp+
  have b: "map_sum id (\<lambda>t. (isBusy t, emitted t)) (refresh env_dir (Addr 1) scanned)
       = Inr (True, [DeletingChild (Addr 1), ChildDeleted, StartingReading, ChildAdded (Addr 3)])"
    by code_simp
  have c: "map_sum id (\<lambda>t. (isBusy t, emitted t)) (startReading env_dir ''/d'' scanned)
       = Inr (False, [Clearing, StartingReading, ChildAdded (Addr 3), ReadJobFinished (Addr 0)])"
    by code_simp
  from b c have "refresh env_dir (Addr 1) scanned \<noteq> startReading env_dir ''/d'' scanned"
    by (metis Pair_inject sum.inject(2))
  with a b c show ?thesis by simp
qed

text \<open>
  Claim C4, amended. In a tree with a toplevel entry, \<open>refresh\<close> of the null pointer
  or of an entry without a parent (the pseudo root \<open>_root\<close>: the test is
  \<open>! subtree->parent()\<close>) is \<open>startReading\<close> on the tree's \<open>url()\<close>, passed through
  \<open>QDir::cleanPath\<close>: the two calls return the same result, so the same tree, busy
  flag and notifications. Where cleaning the path does not change its absolute path,
  that is \<open>startReading\<close> on \<open>url()\<close> itself. The tree is cleared first: the
  notifications begin with \<open>clearing\<close> and \<open>startingReading\<close>.
\<close>

theorem refresh_all:
  assumes "firstToplevel t = Inr toplevel"
      and "deref (heap t) toplevel = Inr te"
      and "subtree = Null \<or> (\<exists>se. deref (heap t) subtree = Inr se \<and> fi_parent se = Null)"
  shows "url t = Inr (fi_url te)
         \<and> refresh env subtree t = startReading env (cleanPath env (fi_url te)) t
         \<and> (absoluteFilePath env (cleanPath env (fi_url te)) = absoluteFilePath env (fi_url te)
              \<longrightarrow> refresh env subtree t = startReading env (fi_url te) t)
         \<and> (\<forall>t'. refresh env subtree t = Inr t'
              \<longrightarrow> (\<exists>sgs. emitted t' = emitted t @ [Clearing, StartingReading] @ sgs))"
proof -
  from assms have u: "url t = Inr (fi_url te)"
    by (auto simp: deref_Inr url_def split: ptr.splits)
  from assms have r: "refresh env subtree t = startReading env (cleanPath env (fi_url te)) t"
    by (auto simp: deref_Inr refresh_def firstToplevel_def split: ptr.splits)
  have c: "startReading env (cleanPath env (fi_url te)) t = startReading env (fi_url te) t"
    if "absoluteFilePath env (cleanPath env (fi_url te)) = absoluteFilePath env (fi_url te)"
    using that by (simp add: startReading_def)
  from assms(1,2) obtain re where re: "deref (heap t) (root t) = Inr re" "hasChildren re"
    by (auto simp: firstToplevel_def firstChild_def hasChildren_def deref_Inr
        split: ptr.splits option.splits list.splits)
  have e: "\<exists>sgs. emitted t' = emitted t @ [Clearing, StartingReading] @ sgs"
    if "refresh env subtree t = Inr t'" for t'
    using that r startReading_after_clear_emits [OF re] by simp
  from r c have c': "absoluteFilePath env (cleanPath env (fi_url te))
      = absoluteFilePath env (fi_url te)
      \<longrightarrow> refresh env subtree t = startReading env (fi_url te) t"
    by simp
  from e have e': "\<forall>t'. refresh env subtree t = Inr t'
      \<longrightarrow> (\<exists>sgs. emitted t' = emitted t @ [Clearing, StartingReading] @ sgs)"
    by blast
  show ?thesis by (intro conjI u r c' e')
qed

theorem refresh_all_witness:
  "url scanned = Inr ''/d''
   \<and> refresh env_dir Null scanned = startReading env_dir ''/d'' scanned
   \<and> refresh env_dir (Addr 0) scanned = startReading env_dir ''/d'' scanned"
  using refresh_all [of scanned "Addr 1" _ Null env_dir]
    refresh_all [of scanned "Addr 1" _ "Addr 0" env_dir]
  by (simp add: trees readConfig_def firstToplevel_def firstChild_def)

text \<open>
  When \<open>lstat\<close> fails on the URL of an entry with a parent, \<open>refresh\<close> of the entry
  (if it returns) ends busy, with the job queue as it was and these three
  notifications, \<open>finished\<close> not among them.
\<close>

lemma refresh_stat_fails_stays_busy:
  assumes "root t \<noteq> Null" and "deref (heap t) subtree = Inr se" and "fi_parent se \<noteq> Null"
    and "lstat env (fi_url se) = None"
    and "refresh env subtree t = Inr t'"
  shows "isBusy t' \<and> jobQueue t' = jobQueue t
         \<and> emitted t' = emitted t @ [DeletingChild subtree, ChildDeleted, StartingReading]"
  using assms
  by (auto simp: refresh_def Let_def bindF_eq_Inr stat_def emit_def deref_Inr)

text \<open>
  Claim C5. The file \<open>/d/f\<close> of the scanned tree is gone from the disk and
  \<open>refresh\<close> is called on its entry. The entry is unlinked and deleted and
  \<open>deletingChild\<close>, \<open>childDeleted\<close> and \<open>startingReading\<close> are emitted; then \<open>stat\<close>
  returns null and \<open>refresh\<close> has no branch for that. It returns with \<open>isBusy\<close> true, an
  empty job queue and no \<open>finished\<close>: nothing is left that would end the busy state.
\<close>

theorem refresh_vanished_stays_busy:
  "map_sum id (\<lambda>t. (isBusy t, jobQueue t, emitted t, heap t 2,
                     map_option fi_children (heap t 1)))
      (refresh env_dir (Addr 2) scanned)
     = Inr (True, [], [DeletingChild (Addr 2), ChildDeleted, StartingReading], None, Some [])"
  by (simp add: trees ops Let_def eval_nat_numeral)

subsection \<open>deleteSubtree\<close>

text \<open>
  When the parent of the entry has a child in its list (the entry itself is one, as
  long as it is linked), \<open>deleteSubtree\<close> emits \<open>deletingChild\<close> for the entry and
  \<open>childDeleted\<close> and nothing else, and logs nothing: the branch that removes an
  empty grouping is not taken.
\<close>

lemma deleteSubtree_linked_child:
  assumes "deref (heap t) subtree = Inr se" and "deref (heap t) (fi_parent se) = Inr pe"
    and "fi_children pe \<noteq> []"
    and "deleteSubtree subtree t = Inr t'"
  shows "emitted t' = emitted t @ [DeletingChild subtree, ChildDeleted] \<and> logged t' = logged t"
  using assms
  by (auto simp: deleteSubtree_def Let_def bindF_eq_Inr deletingChildNotify_def emit_def
      hasChildren_def deref_Inr split: if_splits)

text \<open>
  Claim C6. \<open>deleteSubtree\<close> on the only child of the overflow grouping of \<open>/d\<close>,
  which has finished reading. \<open>deletingChild\<close> is emitted for the child, the child is
  unlinked and deleted, \<open>childDeleted\<close> is emitted. The grouping is tested for
  children while the child is still linked, so it is never found empty: it stays in
  place, now without children, and no notification is emitted for it.
\<close>

theorem deleteSubtree_keeps_empty_grouping:
  "map_sum id (\<lambda>t. (emitted t, logged t, heap t 3, map_option fi_children (heap t 2),
                     map_option fi_dotEntry (heap t 1), map_option fi_isFinished (heap t 1)))
      (deleteSubtree (Addr 3) grouped)
     = Inr ([DeletingChild (Addr 3), ChildDeleted], [], None, Some [], Some (Addr 2), Some True)"
  by (simp add: trees ops Let_def eval_nat_numeral)

subsection \<open>The root of the tree\<close>

text \<open>
  Claim C7, as stated, fails: \<open>deleteSubtree\<close> on the root of a new tree sets
  \<open>_root\<close> to null, and \<open>refresh\<close>, \<open>clear\<close> and \<open>abortReading\<close> after it leave it null;
  \<open>startReading\<close> on that tree dereferences the null root.
\<close>

theorem root_lost_counterexample:
  "map_sum id root (run env_gone [DeleteSubtree (Addr 0)] DirTree_new) = Inr Null
   \<and> map_sum id root
       (run env_gone [DeleteSubtree (Addr 0), Clear, Abort, Refresh Null] DirTree_new) = Inr Null
   \<and> map_sum id root (run env_gone [DeleteSubtree (Addr 0), StartScan ''/d''] DirTree_new)
       = Inl NullPointer"
  by code_simp

text \<open>
  Claim C7, amended. A tree that has its root (the root pointer points to a live
  entry that has no parent and that no entry owns, as in a new tree) keeps that same
  root through every sequence of \<open>startReading\<close>, \<open>refresh\<close>, \<open>deleteSubtree\<close>,
  \<open>clear\<close> and \<open>abortReading\<close> calls in which \<open>deleteSubtree\<close> is not called on the
  root itself: after every such run that returns (a call on a dangling pointer is a
  fault), the root pointer is the same and the root Entry is still there, live and
  without a parent. \<open>deleteSubtree\<close> on the root destroys the root Entry and leaves
  the tree without a root, and no sequence of these calls on a tree without a root
  gives it one.
\<close>

theorem root_kept:
  "(rooted r t \<and> DeleteSubtree (Addr r) \<notin> set ops
      \<longrightarrow> (\<forall>t'. run env ops t = Inr t'
             \<longrightarrow> root t' = Addr r
                 \<and> (\<exists>re'. deref (heap t') (root t') = Inr re' \<and> fi_parent re' = Null)
                 \<and> rooted r t'))
   \<and> (root t = Addr r
      \<longrightarrow> (\<forall>t'. deleteSubtree (Addr r) t = Inr t' \<longrightarrow> root t' = Null \<and> heap t' r = None))
   \<and> (root t = Null \<longrightarrow> (\<forall>t'. run env ops t = Inr t' \<longrightarrow> root t' = Null))"
proof (intro conjI impI allI)
  fix t'
  assume "rooted r t \<and> DeleteSubtree (Addr r) \<notin> set ops" and "run env ops t = Inr t'"
  then have r: "rooted r t'" by (auto intro: rooted_run)
  then show "root t' = Addr r" by (simp add: rooted_def)
  from r show "\<exists>re'. deref (heap t') (root t') = Inr re' \<and> fi_parent re' = Null"
    by (auto simp: rooted_def root_object_def)
  from r show "rooted r t'" .
next
  fix t'
  assume "root t = Addr r" and d: "deleteSubtree (Addr r) t = Inr t'"
  with deleteSubtree_D [of "Addr r" t t'] show "root t' = Null" by auto
  from d show "heap t' r = None" by (rule deleteSubtree_destroys)
next
  fix t'
  assume "root t = Null" and "run env ops t = Inr t'"
  then show "root t' = Null" by (rule rootless_run)
qed

text \<open>
  A new tree has its root object at address 0. The root pointer and the root object
  are still there after a scan, a refresh of the toplevel entry, the deletion of that
  entry, \<open>clear\<close> and \<open>abortReading\<close>; \<open>deleteSubtree\<close> on the root destroys the
  object and loses the root for good.
\<close>

theorem root_kept_witness:
  "rooted 0 DirTree_new
   \<and> DeleteSubtree (Addr 0)
       \<notin> set [StartScan ''/d'', Refresh (Addr 1), DeleteSubtree (Addr 2), Clear, Abort]
   \<and> map_sum id root
       (run env_dir [StartScan ''/d'', Refresh (Addr 1), DeleteSubtree (Addr 2), Clear, Abort]
          DirTree_new) = Inr (Addr 0)
   \<and> map_sum id (\<lambda>t. map_option fi_parent (heap t 0))
       (run env_dir [StartScan ''/d'', Refresh (Addr 1), DeleteSubtree (Addr 2), Clear, Abort]
          DirTree_new) = Inr (Some Null)
   \<and> map_sum id (\<lambda>t. (root t, heap t 0)) (deleteSubtree (Addr 0) DirTree_new)
       = Inr (Null, None)
   \<and> map_sum id root
       (run env_dir [DeleteSubtree (Addr 0), Refresh Null, Clear, Abort] DirTree_new) = Inr Null"
proof -
  let ?ops = "[StartScan ''/d'', Refresh (Addr 1), DeleteSubtree (Addr 2), Clear, Abort]"
  let ?t1 = "projr (run env_dir ?ops DirTree_new)"
  let ?t0 = "projr (deleteSubtree (Addr 0) DirTree_new)"
  have r: "rooted 0 DirTree_new"
    by (simp add: rooted_def root_object_def owned_def DirTree_new_def readConfig_def
        pseudoRoot_def)
  have n: "DeleteSubtree (Addr 0) \<notin> set ?ops" by simp
  have "\<not> isl (run env_dir ?ops DirTree_new)" by code_simp
  then have t1: "run env_dir ?ops DirTree_new = Inr ?t1"
    by (rule Inr_projr)
  from root_kept [of 0 DirTree_new ?ops env_dir] r n t1
  have k: "root ?t1 = Addr 0
           \<and> (\<exists>re'. deref (heap ?t1) (root ?t1) = Inr re' \<and> fi_parent re' = Null)"
    by blast
  then have k1: "root ?t1 = Addr 0" and k2: "map_option fi_parent (heap ?t1 0) = Some Null"
    by (auto simp: deref_Inr)
  from t1 k1 have a: "map_sum id root (run env_dir ?ops DirTree_new) = Inr (Addr 0)"
    by (metis map_sum.simps(2))
  from t1 k2 have a': "map_sum id (\<lambda>t. map_option fi_parent (heap t 0))
                         (run env_dir ?ops DirTree_new) = Inr (Some Null)"
    by (metis map_sum.simps(2))
  have "\<not> isl (deleteSubtree (Addr 0) DirTree_new)" by code_simp
  then have t2: "deleteSubtree (Addr 0) DirTree_new = Inr ?t0"
    by (rule Inr_projr)
  have "root DirTree_new = Addr 0" by (simp add: DirTree_new_def readConfig_def)
  with root_kept [of 0 DirTree_new "[]" env_dir] t2
  have t0: "root ?t0 = Null" and t0': "heap ?t0 0 = None" by blast+
  with t2 have b: "map_sum id (\<lambda>t. (root t, heap t 0)) (deleteSubtree (Addr 0) DirTree_new)
                     = Inr (Null, None)"
    by (metis map_sum.simps(2))
  have "\<not> isl (run env_dir [Refresh Null, Clear, Abort] ?t0)" by code_simp
  then have t3: "run env_dir [Refresh Null, Clear, Abort] ?t0
                   = Inr (projr (run env_dir [Refresh Null, Clear, Abort] ?t0))"
    by (rule Inr_projr)
  from root_kept [of 0 ?t0 "[Refresh Null, Clear, Abort]" env_dir] t0 t3
  have "root (projr (run env_dir [Refresh Null, Clear, Abort] ?t0)) = Null" by blast
  with t3 have "map_sum id root (run env_dir [Refresh Null, Clear, Abort] ?t0) = Inr Null"
    by (metis map_sum.simps(2))
  moreover have "run env_dir [DeleteSubtree (Addr 0), Refresh Null, Clear, Abort] DirTree_new
                   = run env_dir [Refresh Null, Clear, Abort] ?t0"
    by (metis t2 bindF_simps(2) run.simps(2) apply_op.simps(3))
  ultimately have c: "map_sum id root
       (run env_dir [DeleteSubtree (Addr 0), Refresh Null, Clear, Abort] DirTree_new) = Inr Null"
    by simp
  from r n a a' b c show ?thesis by blast
qed

subsection \<open>The queries\<close>

text \<open>
  Claim C8. For an entry pointer that is null or points to a live entry whose parent
  pointer is null or live, \<open>isTopLevel\<close> returns, and it returns true exactly when the
  entry is not null, it has a parent, and the parent has no parent.
\<close>

theorem isTopLevel_iff:
  assumes "item = Null \<or> (\<exists>e. deref (heap t) item = Inr e
             \<and> (fi_parent e = Null \<or> (\<exists>pe. deref (heap t) (fi_parent e) = Inr pe)))"
  shows "\<exists>b. isTopLevel t item = Inr b
           \<and> (b \<longleftrightarrow> (\<exists>e pe. deref (heap t) item = Inr e
                          \<and> deref (heap t) (fi_parent e) = Inr pe \<and> fi_parent pe = Null))"
  using assms by (auto simp: isTopLevel_def deref_Inr split: ptr.splits)

theorem isTopLevel_iff_witness:
  "isTopLevel scanned (Addr 1) = Inr True \<and> isTopLevel scanned (Addr 2) = Inr False
   \<and> isTopLevel scanned (Addr 0) = Inr False \<and> isTopLevel scanned Null = Inr False"
  using isTopLevel_iff [of "Addr 1" scanned] isTopLevel_iff [of "Addr 2" scanned]
    isTopLevel_iff [of "Addr 0" scanned] isTopLevel_iff [of Null scanned]
  by (auto simp: trees readConfig_def)

text \<open>
  Claim C10. \<open>firstToplevel\<close> returns null when the tree has no root and when the
  root has no children, and \<open>url\<close> then returns the empty string. In a tree where
  every child has a URL, \<open>url\<close> returns the empty string exactly when
  \<open>firstToplevel\<close> returns null; such are all trees that the operations make from a
  new tree when \<open>lstat\<close> fails on the empty path. Both are \<open>const\<close> member functions:
  they are functions of the tree that return the answer only.
\<close>

theorem queries_total:
  "(root t = Null \<longrightarrow> firstToplevel t = Inr Null \<and> url t = Inr [])
   \<and> (\<forall>re. deref (heap t) (root t) = Inr re \<and> fi_children re = []
          \<longrightarrow> firstToplevel t = Inr Null \<and> url t = Inr [])
   \<and> (firstToplevel t = Inr Null \<longrightarrow> url t = Inr [])
   \<and> (no_unnamed_child (heap t) \<longrightarrow> (url t = Inr [] \<longleftrightarrow> firstToplevel t = Inr Null))
   \<and> (lstat env [] = None \<and> run env ops DirTree_new = Inr t
        \<longrightarrow> (url t = Inr [] \<longleftrightarrow> firstToplevel t = Inr Null))"
proof -
  have a: "url t = Inr []" if "firstToplevel t = Inr Null"
    using that by (simp add: url_def)
  have b: "firstToplevel t = Inr Null" if "no_unnamed_child (heap t)" and "url t = Inr []"
  proof -
    from that(2) obtain p where p: "firstToplevel t = Inr p"
      by (auto simp: url_def split: sum.splits)
    show ?thesis
    proof (cases p)
      case Null
      with p show ?thesis by simp
    next
      case (Addr i)
      with p that(2) obtain e where e: "heap t i = Some e" "fi_url e = []"
        by (auto simp: url_def split: option.splits)
      from p Addr obtain r re where re: "heap t r = Some re" "firstChild re = Addr i"
        by (auto simp: firstToplevel_def split: ptr.splits option.splits)
      then have "i \<in> set (fi_children re)"
        by (auto simp: firstChild_def split: list.splits)
      with that(1) e re(1) show ?thesis unfolding no_unnamed_child_def by blast
    qed
  qed
  have c: "no_unnamed_child (heap t)" if "lstat env [] = None" "run env ops DirTree_new = Inr t"
    using named_run [OF named_DirTree_new that] .
  have d: "firstToplevel t = Inr Null" if "root t = Null"
    using that by (simp add: firstToplevel_def)
  have e: "firstToplevel t = Inr Null" if "deref (heap t) (root t) = Inr re" "fi_children re = []"
    for re
    using that by (auto simp: firstToplevel_def firstChild_def deref_Inr)
  from a b c d e show ?thesis by blast
qed

theorem queries_total_witness:
  "firstToplevel (DirTree_new\<lparr>root := Null\<rparr>) = Inr Null
   \<and> url (DirTree_new\<lparr>root := Null\<rparr>) = Inr []
   \<and> firstToplevel DirTree_new = Inr Null \<and> url DirTree_new = Inr []
   \<and> no_unnamed_child (heap scanned)
   \<and> firstToplevel scanned = Inr (Addr 1) \<and> url scanned \<noteq> Inr []
   \<and> lstat env_dir [] = None
   \<and> map_sum id firstToplevel (run env_dir [StartScan ''/d''] DirTree_new) = Inr (Inr (Addr 1))
   \<and> map_sum id url (run env_dir [StartScan ''/d''] DirTree_new) \<noteq> Inr (Inr [])"
proof -
  let ?r = "run env_dir [StartScan ''/d''] DirTree_new"
  have n: "no_unnamed_child (heap scanned)"
    by (auto simp: no_unnamed_child_def trees readConfig_def split: if_splits)
  have f: "firstToplevel scanned = Inr (Addr 1)"
    by (simp add: trees firstToplevel_def firstChild_def readConfig_def)
  have l: "lstat env_dir [] = None" by (simp add: env_dir_def)
  have "\<not> isl ?r" by code_simp
  then have t: "?r = Inr (projr ?r)" by (rule Inr_projr)
  have ft': "map_sum id firstToplevel ?r = Inr (Inr (Addr 1))" by code_simp
  with t have ft: "firstToplevel (projr ?r) = Inr (Addr 1)"
    by (metis map_sum.simps(2) sum.inject(2))
  from queries_total [of "DirTree_new\<lparr>root := Null\<rparr>"]
  have 1: "firstToplevel (DirTree_new\<lparr>root := Null\<rparr>) = Inr Null
           \<and> url (DirTree_new\<lparr>root := Null\<rparr>) = Inr []"
    by simp
  from queries_total [of DirTree_new]
  have 2: "firstToplevel DirTree_new = Inr Null \<and> url DirTree_new = Inr []"
    by (simp add: DirTree_new_def readConfig_def pseudoRoot_def)
  from queries_total [of scanned] n f have 3: "url scanned \<noteq> Inr []" by simp
  from queries_total [of "projr ?r" env_dir "[StartScan ''/d'']"] l t ft
  have "url (projr ?r) \<noteq> Inr []" by auto
  with t have 4: "map_sum id url ?r \<noteq> Inr (Inr [])"
    by (metis map_sum.simps(2) sum.inject(2))
  from 1 2 3 4 n f l ft' show ?thesis by blast
qed

subsection \<open>childAddedNotify\<close>

text \<open>
  Claim C9. For a live new child, \<open>childAddedNotify\<close> changes nothing but the
  notifications: it emits \<open>childAdded\<close> for the child and then, when the child has an
  overflow grouping, \<open>childAdded\<close> for the grouping; without a grouping it emits the
  one notification.
\<close>

theorem childAddedNotify_order:
  assumes "deref (heap t) newChild = Inr e"
  shows "childAddedNotify newChild t =
           Inr (t\<lparr>emitted := emitted t @
                  (if fi_dotEntry e \<noteq> Null
                   then [ChildAdded newChild, ChildAdded (fi_dotEntry e)]
                   else [ChildAdded newChild])\<rparr>)"
  using assms by (simp add: childAddedNotify_def emit_def)

theorem childAddedNotify_order_witness:
  "map_sum id emitted (childAddedNotify (Addr 1) grouped)
     = Inr [ChildAdded (Addr 1), ChildAdded (Addr 2)]
   \<and> map_sum id emitted (childAddedNotify (Addr 3) grouped) = Inr [ChildAdded (Addr 3)]"
  using childAddedNotify_order [of grouped "Addr 1"] childAddedNotify_order [of grouped "Addr 3"]
  by (simp add: trees readConfig_def)

end
